theory Spec2Isabelle
  imports Complex_Main "HOL-Library.AList" "HOL-Library.Sublist"
begin

section \<open>Data model of \<open>order_book.py\<close>\<close>

text \<open>
  Prices are only ever compared and used as dictionary keys, never computed with, so they
  are modelled as real numbers. Quantities and order identities are Python integers.
  The fields \<open>timestamp\<close>, \<open>underlying\<close>, \<open>instrument\<close>, \<open>product\<close> and \<open>status\<close> of an
  order are written or carried along but never read by \<open>process_order\<close>,
  \<open>process_match\<close> or \<open>execute_match\<close>; they are left out of the record. Every call of
  \<open>process_order\<close> is taken to receive an \<open>Order\<close> object of its own, so an order is a value.

  The fields \<open>type\<close>, \<open>price\<close> and \<open>quantity\<close> of a \<open>Trade\<close> are named \<open>trade_type\<close>,
  \<open>trade_price\<close> and \<open>trade_quantity\<close>, and the counter \<open>OrderBook.order_id\<close> is named
  \<open>book_order_counter\<close>, since an \<open>Order\<close> has fields of the same names. The queue
  \<open>trades\<close> is the list of the trades put on it, oldest first. The queue
  \<open>unprocessed_orders\<close> and the four summary lists belong to the driver and to
  \<open>book_summary\<close>; \<open>process_order\<close> does not touch them.
\<close>

datatype Type = BUY | SELL

record Order =
  type :: Type
  price :: real
  quantity :: int
  order_id :: int

record Trade =
  trade_type :: Type
  trade_price :: real
  trade_quantity :: int
  incoming_order_id :: int
  book_order_id :: int

text \<open>
  A \<open>defaultdict(list)\<close> keyed by price: an association list in insertion order, as a
  Python dictionary keeps it.
\<close>

type_synonym levels = "(real \<times> Order list) list"

record OrderBook =
  bids :: levels
  offers :: levels
  trades :: "Trade list"
  book_order_counter :: int

definition OrderBook_init :: OrderBook where
  "OrderBook_init = \<lparr>bids = [], offers = [], trades = [], book_order_counter = 0\<rparr>"

text \<open>The value of \<open>min_offer\<close> is a price or \<open>float('inf')\<close>.\<close>

datatype bound = Price real | Inf

fun bound_le :: "bound \<Rightarrow> real \<Rightarrow> bool" where
  "bound_le (Price m) p = (m \<le> p)"
| "bound_le Inf p = False"

fun less_bound :: "real \<Rightarrow> bound \<Rightarrow> bool" where
  "less_bound p (Price m) = (p < m)"
| "less_bound p Inf = True"

section \<open>Dictionary operations\<close>

text \<open>\<open>d[k]\<close> on a \<open>defaultdict(list)\<close>: a missing key is entered with an empty list.\<close>

definition dd_getitem :: "levels \<Rightarrow> real \<Rightarrow> Order list \<times> levels" where
  "dd_getitem d k =
     (case map_of d k of
        Some v \<Rightarrow> (v, d)
      | None \<Rightarrow> ([], AList.update k [] d))"

text \<open>\<open>d[k].append(x)\<close>.\<close>

definition dd_append :: "levels \<Rightarrow> real \<Rightarrow> Order \<Rightarrow> levels" where
  "dd_append d k x = (let (v, d') = dd_getitem d k in AList.update k (v @ [x]) d')"

section \<open>The order book\<close>

definition new_order_id :: "OrderBook \<Rightarrow> int \<times> OrderBook" where
  "new_order_id self =
     (let self' = self\<lparr>book_order_counter := book_order_counter self + 1\<rparr>
      in (book_order_counter self', self'))"

definition max_bid :: "OrderBook \<Rightarrow> real" where
  "max_bid self = (if bids self \<noteq> [] then Max (set (map fst (bids self))) else 0)"

definition min_offer :: "OrderBook \<Rightarrow> bound" where
  "min_offer self = (if offers self \<noteq> [] then Price (Min (set (map fst (offers self)))) else Inf)"

definition execute_match :: "Order \<Rightarrow> Order \<Rightarrow> Trade" where
  "execute_match incoming_order book_order =
     (let tq = min (quantity incoming_order) (quantity book_order)
      in \<lparr>trade_type = type incoming_order, trade_price = price book_order,
          trade_quantity = tq, incoming_order_id = order_id incoming_order,
          book_order_id = order_id book_order\<rparr>)"

text \<open>One pass through the body of the inner loop of \<open>process_match\<close> (lines 83 to 85).\<close>

definition match_step :: "Order \<Rightarrow> Order \<Rightarrow> Order \<times> Order \<times> Trade" where
  "match_step incoming_order book_order =
     (let trade = execute_match incoming_order book_order
      in (incoming_order\<lparr>quantity := max 0 (quantity incoming_order - trade_quantity trade)\<rparr>,
          book_order\<lparr>quantity := max 0 (quantity book_order - trade_quantity trade)\<rparr>,
          trade))"

text \<open>
  The inner loop over the orders of one level. It returns the incoming order, the orders
  of the level as the loop leaves them, and the trade queue.
\<close>

fun match_orders :: "Order \<Rightarrow> Order list \<Rightarrow> Trade list \<Rightarrow> Order \<times> Order list \<times> Trade list" where
  "match_orders incoming_order [] q = (incoming_order, [], q)"
| "match_orders incoming_order (book_order # rest) q =
     (if quantity incoming_order = 0 then (incoming_order, book_order # rest, q)
      else
        (case match_step incoming_order book_order of
           (incoming_order', book_order', trade) \<Rightarrow>
             (case match_orders incoming_order' rest (q @ [trade]) of
                (incoming_order'', rest', q') \<Rightarrow> (incoming_order'', book_order' # rest', q'))))"

definition price_doesnt_match :: "Order \<Rightarrow> real \<Rightarrow> bool" where
  "price_doesnt_match incoming_order book_price =
     (if type incoming_order = BUY then price incoming_order < book_price
      else price incoming_order > book_price)"

text \<open>The outer loop over the sorted prices of the opposite side.\<close>

fun match_levels :: "Order \<Rightarrow> real list \<Rightarrow> levels \<Rightarrow> Trade list \<Rightarrow> Order \<times> levels \<times> Trade list" where
  "match_levels incoming_order [] lv q = (incoming_order, lv, q)"
| "match_levels incoming_order (p # ps) lv q =
     (if quantity incoming_order = 0 \<or> price_doesnt_match incoming_order p
      then (incoming_order, lv, q)
      else
        (case dd_getitem lv p of
           (orders_at_level, lv1) \<Rightarrow>
             (case match_orders incoming_order orders_at_level q of
                (incoming_order', orders', q') \<Rightarrow>
                  (case dd_getitem (AList.update p (filter (\<lambda>x. quantity x > 0) orders') lv1) p of
                     (survivors, lv2) \<Rightarrow>
                       match_levels incoming_order' ps
                         (if length survivors = 0 then AList.delete p lv2 else lv2) q'))))"

definition process_match :: "Order \<Rightarrow> OrderBook \<Rightarrow> Order \<times> OrderBook" where
  "process_match incoming_order self =
     (let lv = (if type incoming_order = SELL then bids self else offers self);
          prices = (if type incoming_order = SELL then rev (sort (map fst lv))
                    else sort (map fst lv))
      in case match_levels incoming_order prices lv (trades self) of
           (incoming_order', lv', q') \<Rightarrow>
             let self' = (if type incoming_order = SELL
                          then self\<lparr>bids := lv', trades := q'\<rparr>
                          else self\<lparr>offers := lv', trades := q'\<rparr>)
             in if quantity incoming_order' > 0
                then (if type incoming_order' = BUY
                      then (incoming_order',
                            self'\<lparr>bids := dd_append (bids self') (price incoming_order') incoming_order'\<rparr>)
                      else (incoming_order',
                            self'\<lparr>offers := dd_append (offers self') (price incoming_order') incoming_order'\<rparr>))
                else (incoming_order', self'))"

text \<open>
  \<open>process_order\<close> mutates the order it is given and the book; the model returns both.
\<close>

definition process_order :: "Order \<Rightarrow> OrderBook \<Rightarrow> Order \<times> OrderBook" where
  "process_order incoming_order self =
     (case new_order_id self of
        (oid, self1) \<Rightarrow>
          let incoming_order1 = incoming_order\<lparr>order_id := oid\<rparr>
          in if type incoming_order1 = BUY
             then (if bound_le (min_offer self1) (price incoming_order1) \<and> offers self1 \<noteq> []
                   then process_match incoming_order1 self1
                   else (incoming_order1,
                         self1\<lparr>bids := dd_append (bids self1) (price incoming_order1) incoming_order1\<rparr>))
             else (if price incoming_order1 \<le> max_bid self1 \<and> bids self1 \<noteq> []
                   then process_match incoming_order1 self1
                   else (incoming_order1,
                         self1\<lparr>offers := dd_append (offers self1) (price incoming_order1) incoming_order1\<rparr>)))"

text \<open>The driver: orders are processed one after the other.\<close>

fun process_all :: "Order list \<Rightarrow> OrderBook \<Rightarrow> OrderBook" where
  "process_all [] self = self"
| "process_all (x # xs) self = process_all xs (snd (process_order x self))"

section \<open>Notions used by the properties\<close>

text \<open>
  Marketability as the specification words it: a BUY is marketable iff the offer side is
  non-empty and its price is at least the minimum offer price; a SELL is marketable iff
  the bid side is non-empty and its price is at most the maximum bid price.
\<close>

definition marketable :: "Order \<Rightarrow> OrderBook \<Rightarrow> bool" where
  "marketable x b =
     (if type x = BUY
      then offers b \<noteq> [] \<and> Min (set (map fst (offers b))) \<le> price x
      else bids b \<noteq> [] \<and> price x \<le> Max (set (map fst (bids b))))"

text \<open>The order and the book after the first two statements of \<open>process_order\<close>.\<close>

definition stamp :: "Order \<Rightarrow> OrderBook \<Rightarrow> Order" where
  "stamp x b = x\<lparr>order_id := book_order_counter b + 1\<rparr>"

definition counted :: "OrderBook \<Rightarrow> OrderBook" where
  "counted b = b\<lparr>book_order_counter := book_order_counter b + 1\<rparr>"

text \<open>The trades a call put on the queue, and the quantity they add up to.\<close>

definition emitted :: "OrderBook \<Rightarrow> OrderBook \<Rightarrow> Trade list" where
  "emitted b b' = drop (length (trades b)) (trades b')"

definition total :: "Trade list \<Rightarrow> int" where
  "total ts = sum_list (map trade_quantity ts)"

text \<open>The orders resting at a price (none when the price is not a key).\<close>

definition lookup :: "levels \<Rightarrow> real \<Rightarrow> Order list" where
  "lookup lv p = (case map_of lv p of Some v \<Rightarrow> v | None \<Rightarrow> [])"

text \<open>Matching changes the quantity of an order and nothing else.\<close>

definition same_order :: "Order \<Rightarrow> Order \<Rightarrow> bool" where
  "same_order r r' = (type r' = type r \<and> price r' = price r \<and> order_id r' = order_id r)"

text \<open>Lines 87 to 89 of \<open>process_match\<close> in one piece: compaction of a level and its removal.\<close>

definition survivors :: "Order list \<Rightarrow> Order list" where
  "survivors lvl = filter (\<lambda>x. quantity x > 0) lvl"

definition settle :: "real \<Rightarrow> Order list \<Rightarrow> levels \<Rightarrow> levels" where
  "settle p lvl lv =
     (if survivors lvl = [] then AList.delete p lv else AList.update p (survivors lvl) lv)"

text \<open>The side an order belongs to, the side it is matched against, and the order of the walk.\<close>

definition own_side :: "Order \<Rightarrow> OrderBook \<Rightarrow> levels" where
  "own_side x b = (if type x = BUY then bids b else offers b)"

definition opp_side :: "Order \<Rightarrow> OrderBook \<Rightarrow> levels" where
  "opp_side x b = (if type x = SELL then bids b else offers b)"

definition walk_prices :: "Order \<Rightarrow> OrderBook \<Rightarrow> real list" where
  "walk_prices x b =
     (if type x = SELL then rev (sort (map fst (bids b))) else sort (map fst (offers b)))"

text \<open>
  A price \<open>a\<close> on the side of order \<open>x\<close> stays clear of a price \<open>c\<close> on the other side:
  a bid below an offer. \<open>price_doesnt_match x p\<close> is \<open>clear_of x (price x) p\<close>.
\<close>

definition clear_of :: "Order \<Rightarrow> real \<Rightarrow> real \<Rightarrow> bool" where
  "clear_of x a c = (if type x = BUY then a < c else c < a)"

text \<open>No bid price reaches an offer price.\<close>

definition uncrossed :: "OrderBook \<Rightarrow> bool" where
  "uncrossed b = (\<forall>kb\<in>set (map fst (bids b)). \<forall>ko\<in>set (map fst (offers b)). kb < ko)"

text \<open>
  A well-kept side index: the keys are distinct, as in a dictionary, no key maps to an
  empty level, and every resting order has quantity left, rests at its own price and is
  of the side's type.
\<close>

definition side_ok :: "Type \<Rightarrow> levels \<Rightarrow> bool" where
  "side_ok t lv =
     (distinct (map fst lv)
      \<and> (\<forall>k\<in>set (map fst lv).
            lookup lv k \<noteq> []
            \<and> (\<forall>r\<in>set (lookup lv k). 0 < quantity r \<and> price r = k \<and> type r = t)))"

definition book_ok :: "OrderBook \<Rightarrow> bool" where
  "book_ok b = (side_ok BUY (bids b) \<and> side_ok SELL (offers b))"

fun other :: "Type \<Rightarrow> Type" where
  "other BUY = SELL"
| "other SELL = BUY"

text \<open>
  Order identities in a book: within a level they increase along the list, none exceeds
  the counter, and two resting orders with the same identity have the same side and
  price (with \<open>side_ok\<close>, they rest in the same level).
\<close>

definition rests :: "OrderBook \<Rightarrow> Order \<Rightarrow> bool" where
  "rests b r = (\<exists>k. r \<in> set (lookup (bids b) k) \<or> r \<in> set (lookup (offers b) k))"

definition ids_ok :: "OrderBook \<Rightarrow> bool" where
  "ids_ok b =
     ((\<forall>k. sorted_wrt (<) (map order_id (lookup (bids b) k))
           \<and> sorted_wrt (<) (map order_id (lookup (offers b) k)))
      \<and> (\<forall>r. rests b r \<longrightarrow> order_id r \<le> book_order_counter b)
      \<and> (\<forall>r1 r2. rests b r1 \<longrightarrow> rests b r2 \<longrightarrow> order_id r1 = order_id r2
            \<longrightarrow> type r1 = type r2 \<and> price r1 = price r2))"

text \<open>The resting orders in the order in which a walk over the prices \<open>ps\<close> meets them.\<close>

definition walk :: "real list \<Rightarrow> levels \<Rightarrow> Order list" where
  "walk ps lv = concat (map (lookup lv) ps)"

text \<open>
  The trades \<open>ts\<close> consume a list of resting orders from its head: the n-th trade is
  against the n-th order, and takes all of it unless it is the last trade of a walk that
  exhausted the incoming order (\<open>full\<close> says the incoming order has quantity left).
\<close>

fun fills :: "Order list \<Rightarrow> Trade list \<Rightarrow> bool \<Rightarrow> bool" where
  "fills w [] full = True"
| "fills [] (t # ts) full = False"
| "fills (r # w) (t # ts) full =
     (book_order_id t = order_id r
      \<and> ((ts \<noteq> [] \<or> full) \<longrightarrow> trade_quantity t = quantity r)
      \<and> fills w ts full)"

text \<open>
  The quantity resting at a price, and the quantity a list of trades executed at a price.
\<close>

definition level_quantity :: "levels \<Rightarrow> real \<Rightarrow> int" where
  "level_quantity lv k = sum_list (map quantity (lookup lv k))"

definition traded_at :: "real \<Rightarrow> Trade list \<Rightarrow> int" where
  "traded_at k ts = sum_list (map trade_quantity (filter (\<lambda>t. trade_price t = k) ts))"

section \<open>Books used as concrete instances\<close>

definition book_one_offer :: OrderBook where
  "book_one_offer =
     \<lparr>bids = [], offers = [(5, [\<lparr>type = SELL, price = 5, quantity = 10, order_id = 1\<rparr>])],
      trades = [], book_order_counter = 1\<rparr>"

definition book_one_bid :: OrderBook where
  "book_one_bid =
     process_all [\<lparr>type = BUY, price = 12, quantity = 10, order_id = 0\<rparr>] OrderBook_init"

definition orders_demo :: "Order list" where
  "orders_demo =
     [\<lparr>type = BUY, price = 12, quantity = 10, order_id = 0\<rparr>,
      \<lparr>type = SELL, price = 15, quantity = 5, order_id = 0\<rparr>,
      \<lparr>type = SELL, price = 12, quantity = 4, order_id = 0\<rparr>]"

definition orders_two :: "Order list" where
  "orders_two =
     [\<lparr>type = BUY, price = 12, quantity = 10, order_id = 0\<rparr>,
      \<lparr>type = SELL, price = 15, quantity = 5, order_id = 0\<rparr>]"

definition sell_four :: Order where
  "sell_four = \<lparr>type = SELL, price = 12, quantity = 4, order_id = 0\<rparr>"

definition two_bids :: "Order list" where
  "two_bids =
     [\<lparr>type = BUY, price = 12, quantity = 10, order_id = 0\<rparr>,
      \<lparr>type = BUY, price = 12, quantity = 5, order_id = 0\<rparr>]"

definition sell_twelve :: Order where
  "sell_twelve = \<lparr>type = SELL, price = 12, quantity = 12, order_id = 0\<rparr>"

section \<open>Routing and the shape of the loops\<close>

lemma counted_simps [simp]:
  "bids (counted b) = bids b" "offers (counted b) = offers b" "trades (counted b) = trades b"
  "book_order_counter (counted b) = book_order_counter b + 1"
  by (simp_all add: counted_def)

lemma stamp_simps [simp]:
  "type (stamp x b) = type x" "price (stamp x b) = price x" "quantity (stamp x b) = quantity x"
  "order_id (stamp x b) = book_order_counter b + 1"
  by (simp_all add: stamp_def)

lemma marketable_counted [simp]: "marketable x (counted b) = marketable x b"
  by (simp add: marketable_def)

lemma marketable_stamp [simp]: "marketable (stamp x b') b = marketable x b"
  by (simp add: marketable_def)

lemma process_order_route:
  "process_order x b =
     (if marketable x b then process_match (stamp x b) (counted b)
      else if type x = BUY
           then (stamp x b, (counted b)\<lparr>bids := dd_append (bids b) (price x) (stamp x b)\<rparr>)
           else (stamp x b, (counted b)\<lparr>offers := dd_append (offers b) (price x) (stamp x b)\<rparr>))"
  by (cases "type x")
     (auto simp: process_order_def new_order_id_def marketable_def min_offer_def max_bid_def
        stamp_def counted_def Let_def)

lemma sort_eq_Nil [simp]: "(sort xs = []) = (xs = [])"
  by (metis length_sort length_0_conv)

lemma process_match_zero:
  assumes "quantity x = 0" and "(if type x = SELL then bids b else offers b) \<noteq> []"
  shows "process_match x b = (x, b)"
proof -
  let ?lv = "if type x = SELL then bids b else offers b"
  let ?ps = "if type x = SELL then rev (sort (map fst ?lv)) else sort (map fst ?lv)"
  have "match_levels x ?ps ?lv (trades b) = (x, ?lv, trades b)"
    using assms by (cases ?ps) auto
  then show ?thesis
    using assms by (cases "type x") (simp_all add: process_match_def)
qed

text \<open>
  C10: an incoming order of quantity 0 that is marketable is routed to \<open>process_match\<close>,
  whose walk stops before the first level: no trade is put on the queue, neither side
  index changes, the order is inserted nowhere, and only the order counter moves on.
\<close>

theorem zero_quantity_marketable_discarded:
  assumes "quantity x = 0" and "marketable x b"
  shows "process_order x b =
           (x\<lparr>order_id := book_order_counter b + 1\<rparr>,
            b\<lparr>book_order_counter := book_order_counter b + 1\<rparr>)"
proof -
  have "(if type (stamp x b) = SELL then bids (counted b) else offers (counted b)) \<noteq> []"
    using assms(2) by (cases "type x") (simp_all add: marketable_def)
  then have "process_match (stamp x b) (counted b) = (stamp x b, counted b)"
    using assms(1) by (intro process_match_zero) simp_all
  then show ?thesis
    using assms(2) by (simp add: process_order_route stamp_def counted_def)
qed

theorem zero_quantity_marketable_discarded_witness:
  "quantity \<lparr>type = BUY, price = 6, quantity = 0, order_id = 0\<rparr> = 0
   \<and> marketable \<lparr>type = BUY, price = 6, quantity = 0, order_id = 0\<rparr> book_one_offer
   \<and> process_order \<lparr>type = BUY, price = 6, quantity = 0, order_id = 0\<rparr> book_one_offer
       = (\<lparr>type = BUY, price = 6, quantity = 0, order_id = 2\<rparr>,
          book_one_offer\<lparr>book_order_counter := 2\<rparr>)"
  using zero_quantity_marketable_discarded
          [of "\<lparr>type = BUY, price = 6, quantity = 0, order_id = 0\<rparr>" book_one_offer]
  by (simp add: marketable_def book_one_offer_def)


lemma match_step_keeps [simp]:
  "type (fst (match_step x r)) = type x"
  "price (fst (match_step x r)) = price x"
  "order_id (fst (match_step x r)) = order_id x"
  "type (fst (snd (match_step x r))) = type r"
  "price (fst (snd (match_step x r))) = price r"
  "order_id (fst (snd (match_step x r))) = order_id r"
  by (simp_all add: match_step_def Let_def)

lemma match_step_quantity:
  "quantity (fst (match_step x r)) = quantity x - min (quantity x) (quantity r)"
  "quantity (fst (snd (match_step x r))) = quantity r - min (quantity x) (quantity r)"
  "trade_quantity (snd (snd (match_step x r))) = min (quantity x) (quantity r)"
  by (simp_all add: match_step_def execute_match_def Let_def)

lemma match_orders_queue:
  "match_orders x lvl q = (case match_orders x lvl [] of (x', lvl', ts) \<Rightarrow> (x', lvl', q @ ts))"
proof (induction lvl arbitrary: x q)
  case Nil
  show ?case by simp
next
  case (Cons r rest)
  obtain x1 r1 t where st: "match_step x r = (x1, r1, t)"
    by (cases "match_step x r") auto
  obtain x2 rest2 ts where rec: "match_orders x1 rest [] = (x2, rest2, ts)"
    by (cases "match_orders x1 rest []") auto
  have "match_orders x1 rest (q @ [t]) = (x2, rest2, (q @ [t]) @ ts)"
    using Cons.IH [of x1 "q @ [t]"] rec by simp
  moreover have "match_orders x1 rest [t] = (x2, rest2, [t] @ ts)"
    using Cons.IH [of x1 "[t]"] rec by simp
  ultimately show ?case
    using st by simp
qed

lemma match_levels_queue:
  "match_levels x ps lv q = (case match_levels x ps lv [] of (x', lv', ts) \<Rightarrow> (x', lv', q @ ts))"
proof (induction ps arbitrary: x lv q)
  case Nil
  show ?case by simp
next
  case (Cons p ps)
  show ?case
  proof (cases "quantity x = 0 \<or> price_doesnt_match x p")
    case True
    then show ?thesis by auto
  next
    case False
    obtain lvl lv1 where g: "dd_getitem lv p = (lvl, lv1)"
      by (cases "dd_getitem lv p") auto
    obtain x1 lvl1 ts1 where m: "match_orders x lvl [] = (x1, lvl1, ts1)"
      by (cases "match_orders x lvl []") auto
    have mq: "match_orders x lvl q = (x1, lvl1, q @ ts1)"
      using match_orders_queue [of x lvl q] m by simp
    obtain sv lv2 where g2:
      "dd_getitem (AList.update p (filter (\<lambda>x. quantity x > 0) lvl1) lv1) p = (sv, lv2)"
      by (cases "dd_getitem (AList.update p (filter (\<lambda>x. quantity x > 0) lvl1) lv1) p") auto
    let ?lv3 = "if length sv = 0 then AList.delete p lv2 else lv2"
    obtain x2 lv4 ts2 where r: "match_levels x1 ps ?lv3 [] = (x2, lv4, ts2)"
      by (cases "match_levels x1 ps ?lv3 []") auto
    have "match_levels x1 ps ?lv3 (q @ ts1) = (x2, lv4, (q @ ts1) @ ts2)"
      using Cons.IH [of x1 ?lv3 "q @ ts1"] r by simp
    moreover have "match_levels x1 ps ?lv3 ts1 = (x2, lv4, ts1 @ ts2)"
      using Cons.IH [of x1 ?lv3 ts1] r by simp
    ultimately show ?thesis
      using False g m mq g2 by simp
  qed
qed

lemma dd_getitem_update [simp]: "dd_getitem (AList.update p v lv) p = (v, AList.update p v lv)"
  by (simp add: dd_getitem_def update_conv')

lemma match_levels_step:
  assumes "\<not> (quantity x = 0 \<or> price_doesnt_match x p)"
  shows "match_levels x (p # ps) lv q =
           (case match_orders x (lookup lv p) q of
              (x1, lvl1, q1) \<Rightarrow> match_levels x1 ps (settle p lvl1 lv) q1)"
proof (cases "map_of lv p")
  case None
  then have "dd_getitem lv p = ([], AList.update p [] lv)" "lookup lv p = []"
    by (simp_all add: dd_getitem_def lookup_def)
  then show ?thesis
    using assms by (simp add: settle_def survivors_def delete_update_same)
next
  case (Some v)
  then have "dd_getitem lv p = (v, lv)" "lookup lv p = v"
    by (simp_all add: dd_getitem_def lookup_def)
  then show ?thesis
    using assms
    by (simp add: settle_def survivors_def delete_update_same split: prod.splits)
qed

lemma match_levels_stop:
  "quantity x = 0 \<or> price_doesnt_match x p \<Longrightarrow> match_levels x (p # ps) lv q = (x, lv, q)"
  by simp

lemma match_levels_zero: "quantity x = 0 \<Longrightarrow> match_levels x ps lv q = (x, lv, q)"
  by (cases ps) simp_all

lemma match_orders_zero: "quantity x = 0 \<Longrightarrow> match_orders x lvl q = (x, lvl, q)"
  by (cases lvl) simp_all

lemma match_orders_keeps:
  assumes "match_orders x lvl q = (x', lvl', q')"
  shows "type x' = type x \<and> price x' = price x \<and> order_id x' = order_id x"
  using assms
proof (induction lvl arbitrary: x q x' lvl' q')
  case Nil
  then show ?case by simp
next
  case (Cons r rest)
  show ?case
  proof (cases "quantity x = 0")
    case True
    with Cons.prems show ?thesis by simp
  next
    case False
    obtain x1 r1 t where st: "match_step x r = (x1, r1, t)"
      by (cases "match_step x r") auto
    obtain x2 rest2 q2 where rec: "match_orders x1 rest (q @ [t]) = (x2, rest2, q2)"
      by (cases "match_orders x1 rest (q @ [t])") auto
    have "x' = x2" using Cons.prems False st rec by simp
    moreover have "type x1 = type x \<and> price x1 = price x \<and> order_id x1 = order_id x"
      using match_step_keeps(1-3) [of x r] st by simp
    ultimately show ?thesis using Cons.IH [OF rec] by simp
  qed
qed

lemma match_levels_keeps:
  assumes "match_levels x ps lv q = (x', lv', q')"
  shows "type x' = type x \<and> price x' = price x \<and> order_id x' = order_id x"
  using assms
proof (induction ps arbitrary: x lv q x' lv' q')
  case Nil
  then show ?case by simp
next
  case (Cons p ps)
  show ?case
  proof (cases "quantity x = 0 \<or> price_doesnt_match x p")
    case True
    with Cons.prems show ?thesis by auto
  next
    case False
    obtain x1 lvl1 q1 where m: "match_orders x (lookup lv p) q = (x1, lvl1, q1)"
      by (cases "match_orders x (lookup lv p) q") auto
    have "match_levels x1 ps (settle p lvl1 lv) q1 = (x', lv', q')"
      using Cons.prems match_levels_step [OF False, of ps lv q] m by simp
    from Cons.IH [OF this] match_orders_keeps [OF m] show ?thesis by simp
  qed
qed

lemma match_orders_total:
  assumes "match_orders x lvl [] = (x', lvl', ts)"
  shows "quantity x = quantity x' + total ts"
  using assms
proof (induction lvl arbitrary: x x' lvl' ts)
  case Nil
  then show ?case by (simp add: total_def)
next
  case (Cons r rest)
  show ?case
  proof (cases "quantity x = 0")
    case True
    with Cons.prems show ?thesis by (simp add: total_def)
  next
    case False
    obtain x1 r1 t where st: "match_step x r = (x1, r1, t)"
      by (cases "match_step x r") auto
    obtain x2 rest2 ts2 where rec: "match_orders x1 rest [] = (x2, rest2, ts2)"
      by (cases "match_orders x1 rest []") auto
    have "match_orders x1 rest [t] = (x2, rest2, [t] @ ts2)"
      using match_orders_queue [of x1 rest "[t]"] rec by simp
    then have "x' = x2" "ts = t # ts2"
      using Cons.prems False st by simp_all
    moreover have "quantity x1 = quantity x - trade_quantity t"
      using match_step_quantity(1,3) [of x r] st by simp
    ultimately show ?thesis
      using Cons.IH [OF rec] by (simp add: total_def)
  qed
qed

lemma total_append [simp]: "total (xs @ ys) = total xs + total ys"
  by (simp add: total_def)

lemma match_levels_total:
  assumes "match_levels x ps lv [] = (x', lv', ts)"
  shows "quantity x = quantity x' + total ts"
  using assms
proof (induction ps arbitrary: x lv x' lv' ts)
  case Nil
  then show ?case by (simp add: total_def)
next
  case (Cons p ps)
  show ?case
  proof (cases "quantity x = 0 \<or> price_doesnt_match x p")
    case True
    with Cons.prems show ?thesis by (auto simp: total_def)
  next
    case False
    obtain x1 lvl1 ts1 where m: "match_orders x (lookup lv p) [] = (x1, lvl1, ts1)"
      by (cases "match_orders x (lookup lv p) []") auto
    obtain x2 lv2 ts2 where r: "match_levels x1 ps (settle p lvl1 lv) [] = (x2, lv2, ts2)"
      by (cases "match_levels x1 ps (settle p lvl1 lv) []") auto
    have "match_levels x1 ps (settle p lvl1 lv) ts1 = (x2, lv2, ts1 @ ts2)"
      using match_levels_queue [of x1 ps "settle p lvl1 lv" ts1] r by simp
    then have "x' = x2" "ts = ts1 @ ts2"
      using Cons.prems match_levels_step [OF False, of ps lv "[]"] m by simp_all
    then show ?thesis
      using Cons.IH [OF r] match_orders_total [OF m] by simp
  qed
qed

lemma process_match_BUY:
  assumes "type x = BUY"
    and "match_levels x (sort (map fst (offers b))) (offers b) [] = (x', lv', ts)"
  shows "process_match x b =
           (x', b\<lparr>bids := (if quantity x' > 0 then dd_append (bids b) (price x) x' else bids b),
                  offers := lv', trades := trades b @ ts\<rparr>)"
proof -
  have q: "match_levels x (sort (map fst (offers b))) (offers b) (trades b) = (x', lv', trades b @ ts)"
    using match_levels_queue [of x _ "offers b" "trades b"] assms(2) by simp
  have k: "type x' = BUY" "price x' = price x"
    using match_levels_keeps [OF assms(2)] assms(1) by simp_all
  show ?thesis
    using assms(1) q k by (simp add: process_match_def)
qed

lemma process_match_SELL:
  assumes "type x = SELL"
    and "match_levels x (rev (sort (map fst (bids b)))) (bids b) [] = (x', lv', ts)"
  shows "process_match x b =
           (x', b\<lparr>bids := lv',
                  offers := (if quantity x' > 0 then dd_append (offers b) (price x) x' else offers b),
                  trades := trades b @ ts\<rparr>)"
proof -
  have q: "match_levels x (rev (sort (map fst (bids b)))) (bids b) (trades b) = (x', lv', trades b @ ts)"
    using match_levels_queue [of x _ "bids b" "trades b"] assms(2) by simp
  have k: "type x' = SELL" "price x' = price x"
    using match_levels_keeps [OF assms(2)] assms(1) by simp_all
  show ?thesis
    using assms(1) q k by (simp add: process_match_def)
qed

lemma process_match_total:
  assumes "process_match x b = (x', b')"
  shows "quantity x = quantity x' + total (emitted b b')"
proof (cases "type x")
  case BUY
  obtain x1 lv1 ts where m: "match_levels x (sort (map fst (offers b))) (offers b) [] = (x1, lv1, ts)"
    by (cases "match_levels x (sort (map fst (offers b))) (offers b) []") auto
  show ?thesis
    using process_match_BUY [OF BUY m] assms match_levels_total [OF m]
    by (auto simp: emitted_def)
next
  case SELL
  obtain x1 lv1 ts where m: "match_levels x (rev (sort (map fst (bids b)))) (bids b) [] = (x1, lv1, ts)"
    by (cases "match_levels x (rev (sort (map fst (bids b)))) (bids b) []") auto
  show ?thesis
    using process_match_SELL [OF SELL m] assms match_levels_total [OF m]
    by (auto simp: emitted_def)
qed

text \<open>
  C3: in every match step the traded quantity is the minimum of the two remaining
  quantities, both orders lose exactly that amount and neither goes below 0; over a
  whole call of \<open>process_order\<close> the quantity submitted is the quantity left on the
  incoming order plus the quantities of the trades the call emitted.
\<close>

theorem quantity_conservation:
  "(case match_step x r of
      (x', r', t) \<Rightarrow>
        trade_quantity t = min (quantity x) (quantity r)
        \<and> quantity x' = quantity x - trade_quantity t
        \<and> quantity r' = quantity r - trade_quantity t
        \<and> 0 \<le> quantity x' \<and> 0 \<le> quantity r')
   \<and> (case process_order y b of
        (y', b') \<Rightarrow> quantity y = quantity y' + total (emitted b b'))"
proof -
  have "quantity y = quantity (fst (process_order y b)) + total (emitted b (snd (process_order y b)))"
  proof (cases "marketable y b")
    case True
    then have "process_order y b = process_match (stamp y b) (counted b)"
      by (simp add: process_order_route)
    then show ?thesis
      using process_match_total [of "stamp y b" "counted b" "fst (process_order y b)" "snd (process_order y b)"]
      by (simp add: emitted_def)
  next
    case False
    then show ?thesis
      by (simp add: process_order_route emitted_def total_def)
  qed
  then show ?thesis
    by (simp add: match_step_def execute_match_def Let_def split: prod.splits)
qed

section \<open>The dictionary operations seen as maps\<close>

lemma lookup_update [simp]: "lookup (AList.update k v lv) k = v"
  by (simp add: lookup_def update_conv')

lemma dd_append_lookup: "lookup (dd_append lv k x) k = lookup lv k @ [x]"
  by (cases "map_of lv k") (simp_all add: dd_append_def dd_getitem_def lookup_def update_conv')

lemma dd_append_others: "AList.delete k (dd_append lv k x) = AList.delete k lv"
  by (cases "map_of lv k") (simp_all add: dd_append_def dd_getitem_def delete_update_same)

lemma dd_append_keys:
  "map fst (dd_append lv k x) = (if k \<in> set (map fst lv) then map fst lv else map fst lv @ [k])"
proof (cases "map_of lv k")
  case None
  then have "k \<notin> fst ` set lv"
    by (simp add: map_of_eq_None_iff)
  then show ?thesis
    using None by (simp add: dd_append_def dd_getitem_def update_keys)
next
  case (Some v)
  then have "k \<in> fst ` set lv"
    by (metis map_of_eq_None_iff option.distinct(1))
  then show ?thesis
    using Some by (simp add: dd_append_def dd_getitem_def update_keys)
qed


lemma lookup_dd_append:
  "lookup (dd_append lv k x) k' = (if k' = k then lookup lv k @ [x] else lookup lv k')"
  by (cases "map_of lv k") (simp_all add: dd_append_def dd_getitem_def lookup_def update_conv')

lemma keys_dd_append: "fst ` set (dd_append lv k x) = insert k (fst ` set lv)"
  by (cases "map_of lv k") (auto simp: dd_append_def dd_getitem_def dom_update)

lemma distinct_dd_append: "distinct (map fst lv) \<Longrightarrow> distinct (map fst (dd_append lv k x))"
  by (cases "map_of lv k") (simp_all add: dd_append_def dd_getitem_def distinct_update)

lemma lookup_settle: "lookup (settle p l lv) k = (if k = p then survivors l else lookup lv k)"
  by (simp add: settle_def lookup_def update_conv' delete_conv')

lemma keys_settle:
  "fst ` set (settle p l lv) =
     (if survivors l = [] then fst ` set lv - {p} else insert p (fst ` set lv))"
proof -
  have "fst ` set (AList.delete p lv) = fst ` set lv - {p}"
    using delete_keys [of p lv] by (metis list.set_map set_removeAll)
  then show ?thesis
    by (simp add: settle_def dom_update)
qed

lemma distinct_settle: "distinct (map fst lv) \<Longrightarrow> distinct (map fst (settle p l lv))"
  by (simp add: settle_def distinct_update distinct_delete)

lemma lookup_empty_iff_notin:
  "k \<notin> fst ` set lv \<Longrightarrow> lookup lv k = []"
  by (simp add: lookup_def map_of_eq_None_iff [THEN iffD2])

text \<open>What the inner loop does to the orders of a level: only quantities change.\<close>

lemma match_orders_rel:
  assumes "match_orders x l q = (x', l', q')"
  shows "list_all2 same_order l l'"
  using assms
proof (induction l arbitrary: x q x' l' q')
  case Nil
  then show ?case by simp
next
  case (Cons r rest)
  show ?case
  proof (cases "quantity x = 0")
    case True
    with Cons.prems have "l' = r # rest" by simp
    then show ?thesis by (simp add: list_all2_same same_order_def)
  next
    case False
    obtain x1 r1 t where st: "match_step x r = (x1, r1, t)"
      by (cases "match_step x r") auto
    obtain x2 rest2 q2 where rec: "match_orders x1 rest (q @ [t]) = (x2, rest2, q2)"
      by (cases "match_orders x1 rest (q @ [t])") auto
    have l': "l' = r1 # rest2" using Cons.prems False st rec by simp
    have "same_order r r1"
      using st by (auto simp: match_step_def Let_def same_order_def)
    then show ?thesis
      using Cons.IH [OF rec] l' by simp
  qed
qed

lemma match_orders_exhausts:
  assumes "match_orders x l q = (x', l', q')" and "quantity x' \<noteq> 0"
  shows "survivors l' = []"
  using assms
proof (induction l arbitrary: x q x' l' q')
  case Nil
  then show ?case by (simp add: survivors_def)
next
  case (Cons r rest)
  have nz: "quantity x \<noteq> 0"
    using Cons.prems match_orders_zero [of x "r # rest" q] by auto
  obtain x1 r1 t where st: "match_step x r = (x1, r1, t)"
    by (cases "match_step x r") auto
  obtain x2 rest2 q2 where rec: "match_orders x1 rest (q @ [t]) = (x2, rest2, q2)"
    by (cases "match_orders x1 rest (q @ [t])") auto
  have eq: "l' = r1 # rest2" "x' = x2" using Cons.prems nz st rec by simp_all
  have "quantity x1 \<noteq> 0"
    using match_orders_zero [of x1 rest "q @ [t]"] rec eq Cons.prems(2) by auto
  then have "quantity r1 = 0"
    using match_step_quantity(1,2) [of x r] st by (simp add: min_def split: if_splits)
  moreover have "survivors rest2 = []"
    using Cons.IH [OF rec] eq(2) Cons.prems(2) by simp
  ultimately show ?case
    using eq(1) by (simp add: survivors_def)
qed

lemma match_orders_nonneg:
  assumes "match_orders x l q = (x', l', q')" and "0 \<le> quantity x"
  shows "0 \<le> quantity x'"
  using assms
proof (induction l arbitrary: x q x' l' q')
  case Nil
  then show ?case by simp
next
  case (Cons r rest)
  show ?case
  proof (cases "quantity x = 0")
    case True
    with Cons.prems show ?thesis by simp
  next
    case False
    obtain x1 r1 t where st: "match_step x r = (x1, r1, t)"
      by (cases "match_step x r") auto
    obtain x2 rest2 q2 where rec: "match_orders x1 rest (q @ [t]) = (x2, rest2, q2)"
      by (cases "match_orders x1 rest (q @ [t])") auto
    have "x' = x2" using Cons.prems False st rec by simp
    moreover have "0 \<le> quantity x1"
      using match_step_quantity(1) [of x r] st by simp
    ultimately show ?thesis using Cons.IH [OF rec] by simp
  qed
qed

text \<open>A property of levels that compaction of a matched level keeps is kept by the walk.\<close>

lemma match_levels_level:
  assumes "match_levels x ps lv q = (x', lv', q')"
    and "P (lookup lv k)"
    and "\<And>l l2. P l \<Longrightarrow> list_all2 same_order l l2 \<Longrightarrow> P (survivors l2)"
  shows "P (lookup lv' k)"
  using assms(1,2)
proof (induction ps arbitrary: x lv q)
  case Nil
  then show ?case by simp
next
  case (Cons p ps)
  show ?case
  proof (cases "quantity x = 0 \<or> price_doesnt_match x p")
    case True
    with Cons.prems show ?thesis by auto
  next
    case False
    obtain x1 l1 q1 where m: "match_orders x (lookup lv p) q = (x1, l1, q1)"
      by (cases "match_orders x (lookup lv p) q") auto
    have r: "match_levels x1 ps (settle p l1 lv) q1 = (x', lv', q')"
      using Cons.prems(1) match_levels_step [OF False, of ps lv q] m by simp
    have "P (lookup (settle p l1 lv) k)"
    proof (cases "k = p")
      case True
      then show ?thesis
        using assms(3) [OF _ match_orders_rel [OF m]] Cons.prems(2) by (simp add: lookup_settle)
    next
      case False
      then show ?thesis using Cons.prems(2) by (simp add: lookup_settle)
    qed
    from Cons.IH [OF r this] show ?thesis .
  qed
qed

lemma match_levels_keys:
  assumes "match_levels x ps lv q = (x', lv', q')"
  shows "fst ` set lv' \<subseteq> fst ` set lv \<union> set ps"
  using assms
proof (induction ps arbitrary: x lv q)
  case Nil
  then show ?case by simp
next
  case (Cons p ps)
  show ?case
  proof (cases "quantity x = 0 \<or> price_doesnt_match x p")
    case True
    with Cons.prems show ?thesis by auto
  next
    case False
    obtain x1 l1 q1 where m: "match_orders x (lookup lv p) q = (x1, l1, q1)"
      by (cases "match_orders x (lookup lv p) q") auto
    have r: "match_levels x1 ps (settle p l1 lv) q1 = (x', lv', q')"
      using Cons.prems(1) match_levels_step [OF False, of ps lv q] m by simp
    show ?thesis
      using Cons.IH [OF r] by (auto simp: keys_settle split: if_splits)
  qed
qed

lemma match_levels_distinct:
  assumes "match_levels x ps lv q = (x', lv', q')" and "distinct (map fst lv)"
  shows "distinct (map fst lv')"
  using assms
proof (induction ps arbitrary: x lv q)
  case Nil
  then show ?case by simp
next
  case (Cons p ps)
  show ?case
  proof (cases "quantity x = 0 \<or> price_doesnt_match x p")
    case True
    with Cons.prems show ?thesis by auto
  next
    case False
    obtain x1 l1 q1 where m: "match_orders x (lookup lv p) q = (x1, l1, q1)"
      by (cases "match_orders x (lookup lv p) q") auto
    have r: "match_levels x1 ps (settle p l1 lv) q1 = (x', lv', q')"
      using Cons.prems(1) match_levels_step [OF False, of ps lv q] m by simp
    show ?thesis
      using Cons.IH [OF r] Cons.prems(2) by (simp add: distinct_settle)
  qed
qed

lemma side_stamp [simp]:
  "own_side (stamp x b') b = own_side x b" "opp_side (stamp x b') b = opp_side x b"
  "walk_prices (stamp x b') b = walk_prices x b"
  by (simp_all add: own_side_def opp_side_def walk_prices_def)

lemma side_counted [simp]:
  "own_side x (counted b) = own_side x b" "opp_side x (counted b) = opp_side x b"
  "walk_prices x (counted b) = walk_prices x b"
  by (simp_all add: own_side_def opp_side_def walk_prices_def)

lemma process_match_sides:
  assumes "match_levels x (walk_prices x b) (opp_side x b) [] = (x', lv', ts)"
  shows "process_match x b = (x', snd (process_match x b))
    \<and> opp_side x (snd (process_match x b)) = lv'
    \<and> own_side x (snd (process_match x b)) =
           (if 0 < quantity x' then dd_append (own_side x b) (price x) x' else own_side x b)
    \<and> trades (snd (process_match x b)) = trades b @ ts
    \<and> book_order_counter (snd (process_match x b)) = book_order_counter b"
proof (cases "type x")
  case BUY
  then have m: "match_levels x (sort (map fst (offers b))) (offers b) [] = (x', lv', ts)"
    using assms by (simp add: walk_prices_def opp_side_def)
  show ?thesis
    using BUY by (simp add: process_match_BUY [OF BUY m] own_side_def opp_side_def)
next
  case SELL
  then have m: "match_levels x (rev (sort (map fst (bids b)))) (bids b) [] = (x', lv', ts)"
    using assms by (simp add: walk_prices_def opp_side_def)
  show ?thesis
    using SELL by (simp add: process_match_SELL [OF SELL m] own_side_def opp_side_def)
qed

lemma process_order_marketable:
  assumes "marketable x b"
    and "match_levels (stamp x b) (walk_prices x b) (opp_side x b) [] = (x', lv', ts)"
  shows "fst (process_order x b) = x'"
    and "opp_side x (snd (process_order x b)) = lv'"
    and "own_side x (snd (process_order x b)) =
           (if 0 < quantity x' then dd_append (own_side x b) (price x) x' else own_side x b)"
    and "trades (snd (process_order x b)) = trades b @ ts"
    and "book_order_counter (snd (process_order x b)) = book_order_counter b + 1"
proof -
  have r: "process_order x b = process_match (stamp x b) (counted b)"
    using assms(1) by (simp add: process_order_route)
  have m: "match_levels (stamp x b) (walk_prices (stamp x b) (counted b))
             (opp_side (stamp x b) (counted b)) [] = (x', lv', ts)"
    using assms(2) by simp
  note pm = process_match_sides [OF m, THEN conjunct1]
    process_match_sides [OF m, THEN conjunct2, THEN conjunct1]
    process_match_sides [OF m, THEN conjunct2, THEN conjunct2, THEN conjunct1]
    process_match_sides [OF m, THEN conjunct2, THEN conjunct2, THEN conjunct2, THEN conjunct1]
    process_match_sides [OF m, THEN conjunct2, THEN conjunct2, THEN conjunct2, THEN conjunct2]
  show "fst (process_order x b) = x'"
    using pm(1) r by (metis fst_conv)
  show "opp_side x (snd (process_order x b)) = lv'"
    using pm(2) r by (simp add: opp_side_def)
  show "own_side x (snd (process_order x b)) =
           (if 0 < quantity x' then dd_append (own_side x b) (price x) x' else own_side x b)"
    using pm(3) r by (simp add: own_side_def)
  show "trades (snd (process_order x b)) = trades b @ ts"
    using pm(4) r by simp
  show "book_order_counter (snd (process_order x b)) = book_order_counter b + 1"
    using pm(5) r by simp
qed

lemma process_order_resting:
  assumes "\<not> marketable x b"
  shows "fst (process_order x b) = stamp x b"
    and "opp_side x (snd (process_order x b)) = opp_side x b"
    and "own_side x (snd (process_order x b)) = dd_append (own_side x b) (price x) (stamp x b)"
    and "trades (snd (process_order x b)) = trades b"
    and "book_order_counter (snd (process_order x b)) = book_order_counter b + 1"
  using assms
  by (cases "type x"; simp add: process_order_route own_side_def opp_side_def)+

lemma match_levels_origin:
  assumes "match_levels x ps lv q = (x', lv', q')" and "r' \<in> set (lookup lv' k)"
  shows "\<exists>r\<in>set (lookup lv k). same_order r r'"
proof -
  let ?P = "\<lambda>l. \<forall>r'\<in>set l. \<exists>r\<in>set (lookup lv k). same_order r r'"
  have "?P (lookup lv' k)"
  proof (rule match_levels_level [OF assms(1), where P = ?P])
    show "?P (lookup lv k)" by (auto simp: same_order_def)
  next
    fix l l2 :: "Order list"
    assume P: "?P l" and rel: "list_all2 same_order l l2"
    show "?P (survivors l2)"
    proof
      fix s assume "s \<in> set (survivors l2)"
      then have "s \<in> set l2" by (simp add: survivors_def)
      then obtain m where m: "m \<in> set l" "same_order m s"
        using rel by (metis in_set_conv_nth list_all2_conv_all_nth)
      then obtain r where r: "r \<in> set (lookup lv k)" "same_order r m"
        using P by blast
      have "same_order r s"
        using m(2) r(2) by (simp add: same_order_def)
      then show "\<exists>r\<in>set (lookup lv k). same_order r s"
        using r(1) by blast
    qed
  qed
  then show ?thesis using assms(2) by blast
qed

text \<open>
  C4: \<open>process_order\<close> hands the stamped order to \<open>process_match\<close> exactly when it is
  marketable in the words of the specification; otherwise the stamped order goes to the
  tail of the level at its limit price on its own side: the level is the old one with the
  order appended (the empty one when the price was no key, and then the key is entered
  last), every other level and the opposite side stay as they were.
\<close>

theorem routing:
  "case process_order x b of
     (x', b') \<Rightarrow>
       if marketable x b
       then (x', b') = process_match (x\<lparr>order_id := book_order_counter b + 1\<rparr>)
                          (b\<lparr>book_order_counter := book_order_counter b + 1\<rparr>)
       else x' = x\<lparr>order_id := book_order_counter b + 1\<rparr>
          \<and> opp_side x b' = opp_side x b \<and> trades b' = trades b
          \<and> lookup (own_side x b') (price x) = lookup (own_side x b) (price x) @ [x']
          \<and> AList.delete (price x) (own_side x b') = AList.delete (price x) (own_side x b)
          \<and> map fst (own_side x b') =
               (if price x \<in> set (map fst (own_side x b)) then map fst (own_side x b)
                else map fst (own_side x b) @ [price x])"
proof (cases "marketable x b")
  case True
  then show ?thesis
    by (simp add: process_order_route stamp_def counted_def case_prod_beta)
next
  case False
  note r = process_order_resting [OF False]
  show ?thesis
    using False
    by (simp add: case_prod_beta r dd_append_lookup dd_append_others dd_append_keys stamp_def)
qed

text \<open>
  C7: for a marketable order, when the walk of \<open>process_match\<close> is over an incoming order
  with remaining quantity above 0 is appended to the level at its limit price on its own
  side, which is created when absent; otherwise its own side is left as it was. In both
  cases every order on the opposite side afterwards is an order that rested there before,
  up to its quantity, so the incoming order is not inserted there.
\<close>

theorem remainder_rests:
  assumes "marketable x b"
  shows "case process_order x b of
           (x', b') \<Rightarrow>
             (if 0 < quantity x'
              then lookup (own_side x b') (price x) = lookup (own_side x b) (price x) @ [x']
                 \<and> AList.delete (price x) (own_side x b') = AList.delete (price x) (own_side x b)
                 \<and> map fst (own_side x b') =
                      (if price x \<in> set (map fst (own_side x b)) then map fst (own_side x b)
                       else map fst (own_side x b) @ [price x])
              else own_side x b' = own_side x b)
             \<and> (\<forall>r'\<in>set (lookup (opp_side x b') k).
                   \<exists>r\<in>set (lookup (opp_side x b) k). same_order r r')"
proof -
  obtain x' lv' ts where
    m: "match_levels (stamp x b) (walk_prices x b) (opp_side x b) [] = (x', lv', ts)"
    by (cases "match_levels (stamp x b) (walk_prices x b) (opp_side x b) []") auto
  note r = process_order_marketable [OF assms m]
  have o: "\<forall>r'\<in>set (lookup lv' k). \<exists>r\<in>set (lookup (opp_side x b) k). same_order r r'"
    using match_levels_origin [OF m] by blast
  show ?thesis
    using o
    by (simp add: case_prod_beta r(1,2,3) dd_append_lookup dd_append_others dd_append_keys)
qed

text \<open>
  C9, as amended: a call of \<open>process_order\<close> with an order that is not marketable leaves
  the opposite side index as it was; a call with a marketable order leaves the order's own
  side index as it was unless the order keeps a remaining quantity above 0. Both indices
  can change only in that last case, where the remainder rests on its own side after the
  opposite side was consumed.
\<close>

theorem one_side_unless_remainder:
  "case process_order x b of
     (x', b') \<Rightarrow>
       if marketable x b then 0 < quantity x' \<or> own_side x b' = own_side x b
       else opp_side x b' = opp_side x b"
proof (cases "marketable x b")
  case True
  obtain x' lv' ts where
    m: "match_levels (stamp x b) (walk_prices x b) (opp_side x b) [] = (x', lv', ts)"
    by (cases "match_levels (stamp x b) (walk_prices x b) (opp_side x b) []") auto
  note r = process_order_marketable [OF True m]
  show ?thesis
    using True by (simp add: case_prod_beta r(1,3))
next
  case False
  show ?thesis
    using False by (simp add: case_prod_beta process_order_resting(2) [OF False])
qed

text \<open>
  C9 as stated fails: a SELL of 100 at 12 against a single bid of 10 at 12 removes the bid
  level and rests 90 on the offer side, so both indices differ after the call.
\<close>

theorem both_sides_change_counterexample:
  "\<not> (bids (snd (process_order \<lparr>type = SELL, price = 12, quantity = 100, order_id = 0\<rparr> book_one_bid))
         = bids book_one_bid
      \<or> offers (snd (process_order \<lparr>type = SELL, price = 12, quantity = 100, order_id = 0\<rparr> book_one_bid))
         = offers book_one_bid)"
  by code_simp

text \<open>
  C8 as stated fails: a BUY with price -1 and quantity -5 sent to the empty book is not
  rejected; it is stamped with identity 1 and rests on the bid side as submitted.
\<close>

theorem no_validation_counterexample:
  "process_order \<lparr>type = BUY, price = - 1, quantity = - 5, order_id = 0\<rparr> OrderBook_init
     = (\<lparr>type = BUY, price = - 1, quantity = - 5, order_id = 1\<rparr>,
        \<lparr>bids = [(- 1, [\<lparr>type = BUY, price = - 1, quantity = - 5, order_id = 1\<rparr>])],
         offers = [], trades = [], book_order_counter = 1\<rparr>)"
  by code_simp

text \<open>
  C8, as amended: \<open>process_order\<close> has no validation and no error path. An order with a
  non-positive price or a non-positive quantity is stamped with the next order identity
  and routed by the same marketability test as any other order; when it is not marketable
  it rests, as submitted, at the tail of the level at its price on its own side.
\<close>

theorem invalid_order_accepted:
  assumes "price x \<le> 0 \<or> quantity x \<le> 0"
  shows "case process_order x b of
           (x', b') \<Rightarrow>
             order_id x' = book_order_counter b + 1
             \<and> book_order_counter b' = book_order_counter b + 1
             \<and> (if marketable x b
                 then (x', b') = process_match (x\<lparr>order_id := book_order_counter b + 1\<rparr>)
                                    (b\<lparr>book_order_counter := book_order_counter b + 1\<rparr>)
                 else x' = x\<lparr>order_id := book_order_counter b + 1\<rparr>
                    \<and> lookup (own_side x b') (price x) = lookup (own_side x b) (price x) @ [x'])"
proof (cases "marketable x b")
  case True
  obtain x' lv' ts where
    m: "match_levels (stamp x b) (walk_prices x b) (opp_side x b) [] = (x', lv', ts)"
    by (cases "match_levels (stamp x b) (walk_prices x b) (opp_side x b) []") auto
  note r = process_order_marketable [OF True m]
  have "order_id x' = book_order_counter b + 1"
    using match_levels_keeps [OF m] by simp
  moreover have "process_order x b = process_match (x\<lparr>order_id := book_order_counter b + 1\<rparr>)
                                    (b\<lparr>book_order_counter := book_order_counter b + 1\<rparr>)"
    using True by (simp add: process_order_route stamp_def counted_def)
  ultimately show ?thesis
    using True r(1,5) by (simp add: case_prod_beta prod_eq_iff)
next
  case False
  note r = process_order_resting [OF False]
  show ?thesis
    using False by (simp add: case_prod_beta r dd_append_lookup stamp_def)
qed


theorem routing_witness:
  "(case process_order \<lparr>type = BUY, price = 11, quantity = 3, order_id = 0\<rparr> book_one_bid of
     (x', b') \<Rightarrow>
       \<not> marketable \<lparr>type = BUY, price = 11, quantity = 3, order_id = 0\<rparr> book_one_bid
       \<and> x' = \<lparr>type = BUY, price = 11, quantity = 3, order_id = 2\<rparr>
       \<and> offers b' = [] \<and> lookup (bids b') 11 = [x'] \<and> map fst (bids b') = [12, 11])
   \<and> marketable \<lparr>type = SELL, price = 11, quantity = 3, order_id = 0\<rparr> book_one_bid"
proof -
  have "\<not> marketable \<lparr>type = BUY, price = 11, quantity = 3, order_id = 0\<rparr> book_one_bid"
    and "marketable \<lparr>type = SELL, price = 11, quantity = 3, order_id = 0\<rparr> book_one_bid"
    and "offers book_one_bid = []" and "lookup (bids book_one_bid) 11 = []"
    and "map fst (bids book_one_bid) = [12]" and "book_order_counter book_one_bid = 1"
    by code_simp+
  then show ?thesis
    using routing [of "\<lparr>type = BUY, price = 11, quantity = 3, order_id = 0\<rparr>" book_one_bid]
    by (simp add: case_prod_beta own_side_def opp_side_def)
qed

theorem remainder_rests_witness:
  "marketable \<lparr>type = SELL, price = 12, quantity = 100, order_id = 0\<rparr> book_one_bid
   \<and> (case process_order \<lparr>type = SELL, price = 12, quantity = 100, order_id = 0\<rparr> book_one_bid of
        (x', b') \<Rightarrow> 0 < quantity x' \<and> lookup (offers b') 12 = [x'] \<and> map fst (offers b') = [12]
          \<and> lookup (bids b') 12 = [])"
proof -
  have h: "marketable \<lparr>type = SELL, price = 12, quantity = 100, order_id = 0\<rparr> book_one_bid"
    and "offers book_one_bid = []"
    and "0 < quantity (fst (process_order \<lparr>type = SELL, price = 12, quantity = 100, order_id = 0\<rparr> book_one_bid))"
    and "lookup (bids (snd (process_order \<lparr>type = SELL, price = 12, quantity = 100, order_id = 0\<rparr> book_one_bid))) 12 = []"
    by code_simp+
  then show ?thesis
    using remainder_rests [OF h, of 12]
    by (simp add: case_prod_beta own_side_def opp_side_def lookup_def)
qed

theorem one_side_unless_remainder_witness:
  "(case process_order \<lparr>type = SELL, price = 12, quantity = 10, order_id = 0\<rparr> book_one_bid of
     (x', b') \<Rightarrow> marketable \<lparr>type = SELL, price = 12, quantity = 10, order_id = 0\<rparr> book_one_bid
        \<and> quantity x' = 0 \<and> offers b' = offers book_one_bid)"
proof -
  have "marketable \<lparr>type = SELL, price = 12, quantity = 10, order_id = 0\<rparr> book_one_bid"
    and "quantity (fst (process_order \<lparr>type = SELL, price = 12, quantity = 10, order_id = 0\<rparr> book_one_bid)) = 0"
    by code_simp+
  then show ?thesis
    using one_side_unless_remainder [of "\<lparr>type = SELL, price = 12, quantity = 10, order_id = 0\<rparr>" book_one_bid]
    by (simp add: case_prod_beta own_side_def)
qed

theorem invalid_order_accepted_witness:
  "(price \<lparr>type = SELL, price = 0, quantity = - 5, order_id = 0\<rparr> \<le> 0
     \<or> quantity \<lparr>type = SELL, price = 0, quantity = - 5, order_id = 0\<rparr> \<le> 0)
   \<and> (case process_order \<lparr>type = SELL, price = 0, quantity = - 5, order_id = 0\<rparr> OrderBook_init of
        (x', b') \<Rightarrow> x' = \<lparr>type = SELL, price = 0, quantity = - 5, order_id = 1\<rparr>
          \<and> book_order_counter b' = 1 \<and> lookup (offers b') 0 = [x'])"
proof -
  have "\<not> marketable \<lparr>type = SELL, price = 0, quantity = - 5, order_id = 0\<rparr> OrderBook_init"
    and "lookup (offers OrderBook_init) 0 = []" and "book_order_counter OrderBook_init = 0"
    by code_simp+
  then show ?thesis
    using invalid_order_accepted [of "\<lparr>type = SELL, price = 0, quantity = - 5, order_id = 0\<rparr>" OrderBook_init]
    by (simp add: case_prod_beta own_side_def)
qed

section \<open>The book is never left crossed\<close>

lemma price_doesnt_match_clear: "price_doesnt_match x p = clear_of x (price x) p"
  by (simp add: price_doesnt_match_def clear_of_def)

lemma uncrossed_sides:
  "uncrossed b = (\<forall>a\<in>fst ` set (own_side x b). \<forall>c\<in>fst ` set (opp_side x b). clear_of x a c)"
  by (cases "type x") (auto simp: uncrossed_def own_side_def opp_side_def clear_of_def)

lemma walk_prices_set: "set (walk_prices x b) = fst ` set (opp_side x b)"
  by (simp add: walk_prices_def opp_side_def)

lemma walk_prices_sorted: "sorted_wrt (\<lambda>a c. \<not> clear_of x c a) (walk_prices x b)"
proof (cases "type x")
  case BUY
  have "sorted_wrt (\<lambda>a c. a \<le> c) (sort (map fst (offers b)))"
    using sorted_sort [of "map fst (offers b)"] by simp
  then show ?thesis
    using BUY by (simp add: walk_prices_def clear_of_def not_less)
next
  case SELL
  have "sorted_wrt (\<lambda>a c. c \<le> a) (rev (sort (map fst (bids b))))"
    using sorted_sort [of "map fst (bids b)"] by (simp add: sorted_wrt_rev)
  then show ?thesis
    using SELL by (simp add: walk_prices_def clear_of_def not_less)
qed

lemma walk_prices_distinct:
  "distinct (map fst (opp_side x b)) \<Longrightarrow> distinct (walk_prices x b)"
  by (cases "type x") (simp_all add: walk_prices_def opp_side_def)

lemma clear_of_trans: "clear_of x a p \<Longrightarrow> \<not> clear_of x k p \<Longrightarrow> clear_of x a k"
  by (auto simp: clear_of_def)

lemma clear_of_keeps:
  "type x' = type x \<Longrightarrow> clear_of x' = clear_of x"
  by (simp add: clear_of_def fun_eq_iff)

text \<open>When an order leaves the walk with quantity left, every price it could match is gone.\<close>

lemma match_levels_cleared:
  assumes "match_levels x ps lv q = (x', lv', q')" and "quantity x' \<noteq> 0"
    and "sorted_wrt (\<lambda>a c. \<not> clear_of x c a) ps"
  shows "\<forall>k\<in>fst ` set lv'. k \<in> set ps \<longrightarrow> clear_of x (price x) k"
  using assms
proof (induction ps arbitrary: x lv q)
  case Nil
  then show ?case by simp
next
  case (Cons p ps)
  have nz: "quantity x \<noteq> 0"
    using Cons.prems(1,2) match_levels_zero [of x "p # ps" lv q] by auto
  show ?case
  proof (cases "price_doesnt_match x p")
    case True
    then have c: "clear_of x (price x) p" by (simp add: price_doesnt_match_clear)
    have s: "\<forall>k\<in>set ps. \<not> clear_of x k p" using Cons.prems(3) by simp
    have "\<forall>k\<in>set (p # ps). clear_of x (price x) k"
    proof
      fix k assume "k \<in> set (p # ps)"
      then consider "k = p" | "k \<in> set ps" by auto
      then show "clear_of x (price x) k"
      proof cases
        case 1
        then show ?thesis using c by simp
      next
        case 2
        then have "\<not> clear_of x k p" using s by blast
        then show ?thesis using clear_of_trans [OF c] by blast
      qed
    qed
    then show ?thesis by blast
  next
    case False
    with nz have go: "\<not> (quantity x = 0 \<or> price_doesnt_match x p)" by simp
    obtain x1 l1 q1 where m: "match_orders x (lookup lv p) q = (x1, l1, q1)"
      by (cases "match_orders x (lookup lv p) q") auto
    have r: "match_levels x1 ps (settle p l1 lv) q1 = (x', lv', q')"
      using Cons.prems(1) match_levels_step [OF go, of ps lv q] m by simp
    have k1: "type x1 = type x" "price x1 = price x"
      using match_orders_keeps [OF m] by simp_all
    have "quantity x1 \<noteq> 0"
      using r Cons.prems(2) match_levels_zero [of x1 ps "settle p l1 lv" q1] by auto
    then have gone: "survivors l1 = []"
      using match_orders_exhausts [OF m] by simp
    have "sorted_wrt (\<lambda>a c. \<not> clear_of x1 c a) ps"
      using Cons.prems(3) clear_of_keeps [OF k1(1)] by simp
    from Cons.IH [OF r Cons.prems(2) this]
    have ih: "\<forall>k\<in>fst ` set lv'. k \<in> set ps \<longrightarrow> clear_of x (price x) k"
      using k1 clear_of_keeps [OF k1(1)] by simp
    have "fst ` set lv' \<subseteq> fst ` set (settle p l1 lv) \<union> set ps"
      using match_levels_keys [OF r] .
    moreover have "p \<notin> fst ` set (settle p l1 lv)"
      using gone by (simp add: keys_settle)
    ultimately have "p \<in> fst ` set lv' \<longrightarrow> p \<in> set ps" by blast
    then show ?thesis using ih by auto
  qed
qed

lemma not_marketable_clear:
  assumes "\<not> marketable x b" and "c \<in> fst ` set (opp_side x b)"
  shows "clear_of x (price x) c"
proof (cases "type x")
  case BUY
  then have c: "c \<in> set (map fst (offers b))" using assms(2) by (simp add: opp_side_def)
  then have ne: "offers b \<noteq> []" by auto
  have nm: "\<not> Min (set (map fst (offers b))) \<le> price x"
    using assms(1) BUY ne unfolding marketable_def by simp
  have "Min (set (map fst (offers b))) \<le> c"
    using c by (intro Min_le) simp_all
  with nm have "price x < c" by linarith
  then show ?thesis using BUY by (simp add: clear_of_def)
next
  case SELL
  then have c: "c \<in> set (map fst (bids b))" using assms(2) by (simp add: opp_side_def)
  then have ne: "bids b \<noteq> []" by auto
  have nm: "\<not> price x \<le> Max (set (map fst (bids b)))"
    using assms(1) SELL ne unfolding marketable_def by simp
  have "c \<le> Max (set (map fst (bids b)))"
    using c by (intro Max_ge) simp_all
  with nm have "c < price x" by linarith
  then show ?thesis using SELL by (simp add: clear_of_def)
qed

lemma process_order_uncrossed:
  assumes "uncrossed b"
  shows "uncrossed (snd (process_order x b))"
proof -
  define b' where "b' = snd (process_order x b)"
  define own where "own = fst ` set (own_side x b)"
  define opp where "opp = fst ` set (opp_side x b)"
  define own' where "own' = fst ` set (own_side x b')"
  define opp' where "opp' = fst ` set (opp_side x b')"
  have u: "\<forall>a\<in>own. \<forall>c\<in>opp. clear_of x a c"
    using assms uncrossed_sides [of b x] by (simp add: own_def opp_def)
  have "\<forall>a\<in>own'. \<forall>c\<in>opp'. clear_of x a c"
  proof (cases "marketable x b")
    case False
    note r = process_order_resting [OF False]
    have "own' = insert (price x) own"
      by (simp add: own'_def own_def b'_def r(3) keys_dd_append)
    moreover have "opp' = opp"
      by (simp add: opp'_def opp_def b'_def r(2))
    moreover have "\<forall>c\<in>opp. clear_of x (price x) c"
      using not_marketable_clear [OF False] by (simp add: opp_def)
    ultimately show ?thesis using u by simp
  next
    case True
    obtain x' lv' ts where
      m: "match_levels (stamp x b) (walk_prices x b) (opp_side x b) [] = (x', lv', ts)"
      by (cases "match_levels (stamp x b) (walk_prices x b) (opp_side x b) []") auto
    note r = process_order_marketable [OF True m]
    have opp'_eq: "opp' = fst ` set lv'"
      by (simp add: opp'_def b'_def r(2))
    have sub: "opp' \<subseteq> opp"
      using match_levels_keys [OF m] by (simp add: walk_prices_set opp'_eq opp_def)
    have cl: "clear_of (stamp x b) = clear_of x"
      by (rule clear_of_keeps) simp
    show ?thesis
    proof (cases "0 < quantity x'")
      case False
      then have "own' = own" by (simp add: own'_def own_def b'_def r(3))
      then show ?thesis using u sub by blast
    next
      case pos: True
      then have nz: "quantity x' \<noteq> 0" by simp
      have srt: "sorted_wrt (\<lambda>a c. \<not> clear_of (stamp x b) c a) (walk_prices x b)"
        using walk_prices_sorted [of x b] by (simp add: cl)
      have "\<forall>k\<in>fst ` set lv'. k \<in> set (walk_prices x b)
              \<longrightarrow> clear_of (stamp x b) (price (stamp x b)) k"
        by (rule match_levels_cleared [OF m nz srt])
      then have "\<forall>k\<in>opp'. k \<in> opp \<longrightarrow> clear_of x (price x) k"
        by (simp add: cl walk_prices_set opp'_eq opp_def)
      then have "\<forall>k\<in>opp'. clear_of x (price x) k"
        using sub by blast
      moreover have "own' = insert (price x) own"
        using pos by (simp add: own'_def own_def b'_def r(3) keys_dd_append)
      ultimately show ?thesis using u sub by blast
    qed
  qed
  then show ?thesis
    using uncrossed_sides [of b' x] by (simp add: own'_def opp'_def b'_def)
qed

lemma process_all_uncrossed: "uncrossed b \<Longrightarrow> uncrossed (process_all xs b)"
  by (induction xs arbitrary: b) (simp_all add: process_order_uncrossed)

lemma uncrossed_init: "uncrossed OrderBook_init"
  by (simp add: uncrossed_def OrderBook_init_def)

lemma uncrossed_best:
  assumes "uncrossed b" and "bids b \<noteq> []" and "offers b \<noteq> []"
  shows "less_bound (max_bid b) (min_offer b)"
proof -
  have "Max (set (map fst (bids b))) \<in> set (map fst (bids b))"
    using assms(2) by (intro Max_in) simp_all
  moreover have "Min (set (map fst (offers b))) \<in> set (map fst (offers b))"
    using assms(3) by (intro Min_in) simp_all
  ultimately have "Max (set (map fst (bids b))) < Min (set (map fst (offers b)))"
    using assms(1) unfolding uncrossed_def by blast
  then show ?thesis
    using assms(2,3) by (simp add: max_bid_def min_offer_def)
qed

text \<open>
  C1: for every sequence of orders with positive price and positive quantity processed
  from the empty book, the book after the last call is not crossed: when both side
  indices are non-empty, \<open>max_bid\<close> is below \<open>min_offer\<close>. Every prefix of such a sequence
  is such a sequence, so this holds after each call.
\<close>

theorem never_crossed:
  assumes "\<forall>x\<in>set xs. 0 < price x \<and> 0 < quantity x"
  shows "bids (process_all xs OrderBook_init) \<noteq> [] \<and> offers (process_all xs OrderBook_init) \<noteq> []
         \<longrightarrow> less_bound (max_bid (process_all xs OrderBook_init))
               (min_offer (process_all xs OrderBook_init))"
  using uncrossed_best [OF process_all_uncrossed [OF uncrossed_init, of xs]] by blast

theorem never_crossed_witness:
  "bids (process_all orders_demo OrderBook_init) \<noteq> []
   \<and> offers (process_all orders_demo OrderBook_init) \<noteq> []
   \<and> less_bound (max_bid (process_all orders_demo OrderBook_init))
        (min_offer (process_all orders_demo OrderBook_init))"
proof -
  have h: "\<forall>x\<in>set orders_demo. 0 < price x \<and> 0 < quantity x"
    by (simp add: orders_demo_def)
  have "bids (process_all orders_demo OrderBook_init) \<noteq> []"
    and "offers (process_all orders_demo OrderBook_init) \<noteq> []"
    by code_simp+
  then show ?thesis
    using never_crossed [OF h] by blast
qed

section \<open>Level hygiene as an invariant\<close>

lemma lookup_nonempty_key: "lookup lv k \<noteq> [] \<Longrightarrow> k \<in> fst ` set lv"
  using lookup_empty_iff_notin [of k lv] by blast

lemma side_ok_lookup:
  assumes "side_ok t lv" and "r \<in> set (lookup lv k)"
  shows "0 < quantity r \<and> price r = k \<and> type r = t"
proof -
  have "lookup lv k \<noteq> []" using assms(2) by auto
  then have "k \<in> set (map fst lv)" using lookup_nonempty_key [of lv k] by simp
  then show ?thesis using assms unfolding side_ok_def by blast
qed

lemma side_ok_key:
  assumes "side_ok t lv" and "k \<in> fst ` set lv"
  shows "lookup lv k \<noteq> []"
proof -
  have "k \<in> set (map fst lv)" using assms(2) by simp
  then show ?thesis using assms(1) unfolding side_ok_def by blast
qed

lemma side_okI:
  assumes "distinct (map fst lv)"
    and "\<And>k. k \<in> fst ` set lv \<Longrightarrow> lookup lv k \<noteq> []"
    and "\<And>k r. r \<in> set (lookup lv k) \<Longrightarrow> 0 < quantity r \<and> price r = k \<and> type r = t"
  shows "side_ok t lv"
  unfolding side_ok_def using assms by simp

lemma survivors_origin:
  assumes "list_all2 same_order l l1" and "r \<in> set (survivors l1)"
  shows "0 < quantity r \<and> (\<exists>r0\<in>set l. same_order r0 r)"
proof -
  have "r \<in> set l1" "0 < quantity r" using assms(2) by (simp_all add: survivors_def)
  moreover from this(1) obtain r0 where "r0 \<in> set l" "same_order r0 r"
    using assms(1) by (metis in_set_conv_nth list_all2_conv_all_nth)
  ultimately show ?thesis by blast
qed

lemma side_ok_settle:
  assumes "side_ok t lv" and "list_all2 same_order (lookup lv p) l1"
  shows "side_ok t (settle p l1 lv)"
proof (rule side_okI)
  show "distinct (map fst (settle p l1 lv))"
    using assms(1) by (simp add: side_ok_def distinct_settle)
next
  fix k assume k: "k \<in> fst ` set (settle p l1 lv)"
  show "lookup (settle p l1 lv) k \<noteq> []"
  proof (cases "k = p")
    case True
    then have "survivors l1 \<noteq> []" using k by (auto simp: keys_settle split: if_splits)
    then show ?thesis using True by (simp add: lookup_settle)
  next
    case False
    then have "k \<in> fst ` set lv" using k by (auto simp: keys_settle split: if_splits)
    then show ?thesis using False side_ok_key [OF assms(1)] by (simp add: lookup_settle)
  qed
next
  fix k r assume r: "r \<in> set (lookup (settle p l1 lv) k)"
  show "0 < quantity r \<and> price r = k \<and> type r = t"
  proof (cases "k = p")
    case True
    then have "r \<in> set (survivors l1)" using r by (simp add: lookup_settle)
    from survivors_origin [OF assms(2) this]
    obtain r0 where "0 < quantity r" "r0 \<in> set (lookup lv p)" "same_order r0 r" by blast
    then show ?thesis
      using side_ok_lookup [OF assms(1), of r0 p] True by (simp add: same_order_def)
  next
    case False
    then have "r \<in> set (lookup lv k)" using r by (simp add: lookup_settle)
    then show ?thesis using side_ok_lookup [OF assms(1)] by blast
  qed
qed

lemma side_ok_dd_append:
  assumes "side_ok t lv" and "0 < quantity x" and "price x = k" and "type x = t"
  shows "side_ok t (dd_append lv k x)"
proof (rule side_okI)
  show "distinct (map fst (dd_append lv k x))"
    using assms(1) by (simp add: side_ok_def distinct_dd_append)
next
  fix k' assume "k' \<in> fst ` set (dd_append lv k x)"
  then have "k' = k \<or> k' \<in> fst ` set lv" by (simp add: keys_dd_append)
  then show "lookup (dd_append lv k x) k' \<noteq> []"
    using side_ok_key [OF assms(1), of k'] by (auto simp: lookup_dd_append)
next
  fix k' r assume "r \<in> set (lookup (dd_append lv k x) k')"
  then have "r \<in> set (lookup lv k') \<or> (k' = k \<and> r = x)"
    by (auto simp: lookup_dd_append split: if_splits)
  then show "0 < quantity r \<and> price r = k' \<and> type r = t"
    using side_ok_lookup [OF assms(1), of r k'] assms(2-4) by auto
qed

lemma match_levels_side_ok:
  assumes "match_levels x ps lv q = (x', lv', q')" and "side_ok t lv"
  shows "side_ok t lv'"
  using assms
proof (induction ps arbitrary: x lv q)
  case Nil
  then show ?case by simp
next
  case (Cons p ps)
  show ?case
  proof (cases "quantity x = 0 \<or> price_doesnt_match x p")
    case True
    with Cons.prems show ?thesis by auto
  next
    case False
    obtain x1 l1 q1 where m: "match_orders x (lookup lv p) q = (x1, l1, q1)"
      by (cases "match_orders x (lookup lv p) q") auto
    have r: "match_levels x1 ps (settle p l1 lv) q1 = (x', lv', q')"
      using Cons.prems(1) match_levels_step [OF False, of ps lv q] m by simp
    show ?thesis
      using Cons.IH [OF r side_ok_settle [OF Cons.prems(2) match_orders_rel [OF m]]] .
  qed
qed

lemma book_ok_sides:
  "book_ok b = (side_ok (type x) (own_side x b) \<and> side_ok (other (type x)) (opp_side x b))"
  by (cases "type x") (auto simp: book_ok_def own_side_def opp_side_def)

lemma process_order_book_ok:
  assumes "book_ok b" and "0 < quantity x"
  shows "book_ok (snd (process_order x b))"
proof -
  have own: "side_ok (type x) (own_side x b)" and opp: "side_ok (other (type x)) (opp_side x b)"
    using assms(1) book_ok_sides [of b x] by simp_all
  have "side_ok (type x) (own_side x (snd (process_order x b)))
        \<and> side_ok (other (type x)) (opp_side x (snd (process_order x b)))"
  proof (cases "marketable x b")
    case False
    note r = process_order_resting [OF False]
    show ?thesis
      using opp side_ok_dd_append [OF own, of "stamp x b" "price x"] assms(2)
      by (simp add: r(2,3))
  next
    case True
    obtain x' lv' ts where
      m: "match_levels (stamp x b) (walk_prices x b) (opp_side x b) [] = (x', lv', ts)"
      by (cases "match_levels (stamp x b) (walk_prices x b) (opp_side x b) []") auto
    note r = process_order_marketable [OF True m]
    have k: "type x' = type x" "price x' = price x"
      using match_levels_keeps [OF m] by simp_all
    have "side_ok (other (type x)) lv'"
      using match_levels_side_ok [OF m opp] .
    moreover have "0 < quantity x' \<Longrightarrow> side_ok (type x) (dd_append (own_side x b) (price x) x')"
      using side_ok_dd_append [OF own, of x' "price x"] k by simp
    ultimately show ?thesis using own by (simp add: r(2,3))
  qed
  then show ?thesis using book_ok_sides [of "snd (process_order x b)" x] by simp
qed

lemma book_ok_init: "book_ok OrderBook_init"
  by (simp add: book_ok_def side_ok_def OrderBook_init_def)

lemma process_all_book_ok:
  "book_ok b \<Longrightarrow> \<forall>x\<in>set xs. 0 < quantity x \<Longrightarrow> book_ok (process_all xs b)"
  by (induction xs arbitrary: b) (simp_all add: process_order_book_ok)

section \<open>The trades of a call\<close>

lemma match_levels_nonneg:
  assumes "match_levels x ps lv q = (x', lv', q')" and "0 \<le> quantity x"
  shows "0 \<le> quantity x'"
  using assms
proof (induction ps arbitrary: x lv q)
  case Nil
  then show ?case by simp
next
  case (Cons p ps)
  show ?case
  proof (cases "quantity x = 0 \<or> price_doesnt_match x p")
    case True
    with Cons.prems show ?thesis by auto
  next
    case False
    obtain x1 l1 q1 where m: "match_orders x (lookup lv p) q = (x1, l1, q1)"
      by (cases "match_orders x (lookup lv p) q") auto
    have r: "match_levels x1 ps (settle p l1 lv) q1 = (x', lv', q')"
      using Cons.prems(1) match_levels_step [OF False, of ps lv q] m by simp
    show ?thesis
      using Cons.IH [OF r match_orders_nonneg [OF m Cons.prems(2)]] .
  qed
qed

lemma match_orders_trades:
  assumes "match_orders x l [] = (x', l', ts)" and "0 \<le> quantity x"
    and "\<forall>r\<in>set l. 0 < quantity r" and "t \<in> set ts"
  shows "trade_type t = type x \<and> incoming_order_id t = order_id x \<and> 0 < trade_quantity t
         \<and> (\<exists>r\<in>set l. trade_price t = price r \<and> book_order_id t = order_id r)"
  using assms
proof (induction l arbitrary: x x' l' ts)
  case Nil
  then show ?case by simp
next
  case (Cons r rest)
  show ?case
  proof (cases "quantity x = 0")
    case True
    with Cons.prems show ?thesis by simp
  next
    case False
    obtain x1 r1 t1 where st: "match_step x r = (x1, r1, t1)"
      by (cases "match_step x r") auto
    obtain x2 rest2 ts2 where rec: "match_orders x1 rest [] = (x2, rest2, ts2)"
      by (cases "match_orders x1 rest []") auto
    have "match_orders x1 rest [t1] = (x2, rest2, [t1] @ ts2)"
      using match_orders_queue [of x1 rest "[t1]"] rec by simp
    then have ts: "ts = t1 # ts2"
      using Cons.prems(1) False st by simp
    have x1: "type x1 = type x" "order_id x1 = order_id x" "0 \<le> quantity x1"
      using match_step_keeps(1,3) [of x r] match_step_quantity(1) [of x r] st by simp_all
    have t1: "trade_type t1 = type x" "incoming_order_id t1 = order_id x"
      "trade_price t1 = price r" "book_order_id t1 = order_id r"
      "trade_quantity t1 = min (quantity x) (quantity r)"
      using st by (auto simp: match_step_def execute_match_def Let_def)
    have pos: "0 < quantity x" "0 < quantity r"
      using False Cons.prems(2,3) by simp_all
    show ?thesis
    proof (cases "t = t1")
      case True
      then show ?thesis using t1 pos by simp
    next
      case False
      then have "t \<in> set ts2" using Cons.prems(4) ts by simp
      from Cons.IH [OF rec x1(3) _ this] Cons.prems(3)
      show ?thesis using x1 by auto
    qed
  qed
qed

lemma match_levels_trades:
  assumes "match_levels x ps lv [] = (x', lv', ts)" and "0 \<le> quantity x"
    and "side_ok s lv" and "t \<in> set ts"
  shows "trade_type t = type x \<and> incoming_order_id t = order_id x \<and> 0 < trade_quantity t
         \<and> (\<exists>r\<in>set (lookup lv (trade_price t)). book_order_id t = order_id r)"
  using assms
proof (induction ps arbitrary: x lv ts x' lv')
  case Nil
  then show ?case by simp
next
  case (Cons p ps)
  show ?case
  proof (cases "quantity x = 0 \<or> price_doesnt_match x p")
    case True
    with Cons.prems show ?thesis by auto
  next
    case False
    obtain x1 l1 ts1 where m: "match_orders x (lookup lv p) [] = (x1, l1, ts1)"
      by (cases "match_orders x (lookup lv p) []") auto
    obtain x2 lv2 ts2 where r: "match_levels x1 ps (settle p l1 lv) [] = (x2, lv2, ts2)"
      by (cases "match_levels x1 ps (settle p l1 lv) []") auto
    have "match_levels x1 ps (settle p l1 lv) ts1 = (x2, lv2, ts1 @ ts2)"
      using match_levels_queue [of x1 ps "settle p l1 lv" ts1] r by simp
    then have ts: "ts = ts1 @ ts2"
      using Cons.prems(1) match_levels_step [OF False, of ps lv "[]"] m by simp
    have pos: "\<forall>r\<in>set (lookup lv p). 0 < quantity r"
      using side_ok_lookup [OF Cons.prems(3)] by blast
    have x1: "type x1 = type x" "order_id x1 = order_id x" "0 \<le> quantity x1"
      using match_orders_keeps [OF m] match_orders_nonneg [OF m Cons.prems(2)] by simp_all
    have rel: "list_all2 same_order (lookup lv p) l1"
      using match_orders_rel [OF m] .
    have ok2: "side_ok s (settle p l1 lv)"
      using side_ok_settle [OF Cons.prems(3) rel] .
    consider "t \<in> set ts1" | "t \<in> set ts2" using Cons.prems(4) ts by auto
    then show ?thesis
    proof cases
      case 1
      from match_orders_trades [OF m Cons.prems(2) pos 1]
      obtain r0 where f: "trade_type t = type x" "incoming_order_id t = order_id x"
        "0 < trade_quantity t" "r0 \<in> set (lookup lv p)" "trade_price t = price r0"
        "book_order_id t = order_id r0" by blast
      have "price r0 = p" using side_ok_lookup [OF Cons.prems(3) f(4)] by simp
      then show ?thesis using f by auto
    next
      case 2
      from Cons.IH [OF r x1(3) ok2 2]
      obtain r1 where f: "trade_type t = type x1" "incoming_order_id t = order_id x1"
        "0 < trade_quantity t" "r1 \<in> set (lookup (settle p l1 lv) (trade_price t))"
        "book_order_id t = order_id r1" by blast
      have "\<exists>r0\<in>set (lookup lv (trade_price t)). book_order_id t = order_id r0"
      proof (cases "trade_price t = p")
        case True
        then have "r1 \<in> set (survivors l1)" using f(4) by (simp add: lookup_settle)
        from survivors_origin [OF rel this]
        obtain r0 where "r0 \<in> set (lookup lv p)" "same_order r0 r1" by blast
        then show ?thesis
          using True by (intro bexI [of _ r0]) (simp_all add: same_order_def f(5))
      next
        case False
        then have "r1 \<in> set (lookup lv (trade_price t))" using f(4) by (simp add: lookup_settle)
        then show ?thesis by (intro bexI [of _ r1]) (simp_all add: f(5))
      qed
      then show ?thesis using f(1-3) x1 by simp
    qed
  qed
qed

lemma process_order_emitted:
  "marketable x b \<Longrightarrow>
     match_levels (stamp x b) (walk_prices x b) (opp_side x b) [] = (x', lv', ts) \<Longrightarrow>
     emitted b (snd (process_order x b)) = ts"
  "\<not> marketable x b \<Longrightarrow> emitted b (snd (process_order x b)) = []"
  by (simp_all add: emitted_def process_order_marketable(4) process_order_resting(4))

text \<open>
  C5: in a book reached from the empty book by orders with positive price and positive
  quantity, every trade that \<open>process_order\<close> emits for such an order carries the
  incoming order's side, the identity just assigned to the incoming order, a quantity
  above 0, and the price and identity of an order resting on the opposite side at that
  price: the execution price is read from the resting order, not from the incoming one.
\<close>

theorem trade_record:
  assumes "\<forall>x\<in>set xs. 0 < price x \<and> 0 < quantity x" and "0 < price y \<and> 0 < quantity y"
    and "t \<in> set (emitted (process_all xs OrderBook_init)
                  (snd (process_order y (process_all xs OrderBook_init))))"
  shows "trade_type t = type y
         \<and> incoming_order_id t = order_id (fst (process_order y (process_all xs OrderBook_init)))
         \<and> incoming_order_id t = book_order_counter (process_all xs OrderBook_init) + 1
         \<and> 0 < trade_quantity t
         \<and> (\<exists>r\<in>set (lookup (opp_side y (process_all xs OrderBook_init)) (trade_price t)).
               trade_price t = price r \<and> book_order_id t = order_id r \<and> type r = other (type y))"
proof -
  define b where "b = process_all xs OrderBook_init"
  have ok: "book_ok b"
    unfolding b_def using assms(1) by (intro process_all_book_ok book_ok_init) simp
  then have opp: "side_ok (other (type y)) (opp_side y b)"
    using book_ok_sides [of b y] by simp
  have mk: "marketable y b"
    using assms(3) process_order_emitted(2) [of y b] unfolding b_def by force
  obtain y' lv' ts where
    m: "match_levels (stamp y b) (walk_prices y b) (opp_side y b) [] = (y', lv', ts)"
    by (cases "match_levels (stamp y b) (walk_prices y b) (opp_side y b) []") auto
  have t: "t \<in> set ts"
    using assms(3) process_order_emitted(1) [OF mk m] unfolding b_def by simp
  have "0 \<le> quantity (stamp y b)" using assms(2) by simp
  from match_levels_trades [OF m this opp t]
  obtain r where f: "trade_type t = type y" "incoming_order_id t = book_order_counter b + 1"
    "0 < trade_quantity t" "r \<in> set (lookup (opp_side y b) (trade_price t))"
    "book_order_id t = order_id r" by auto
  have "price r = trade_price t" "type r = other (type y)"
    using side_ok_lookup [OF opp f(4)] by simp_all
  then have ex: "\<exists>r\<in>set (lookup (opp_side y b) (trade_price t)).
                   trade_price t = price r \<and> book_order_id t = order_id r \<and> type r = other (type y)"
    using f(4,5) by (intro bexI [of _ r]) simp_all
  have "order_id (fst (process_order y b)) = book_order_counter b + 1"
    using process_order_marketable(1) [OF mk m] match_levels_keeps [OF m] by simp
  then show ?thesis
    using f(1-3) ex unfolding b_def by simp
qed

theorem trade_record_witness:
  "emitted (process_all orders_two OrderBook_init)
     (snd (process_order sell_four (process_all orders_two OrderBook_init)))
     = [\<lparr>trade_type = SELL, trade_price = 12, trade_quantity = 4,
          incoming_order_id = 3, book_order_id = 1\<rparr>]
   \<and> type sell_four = SELL
   \<and> book_order_counter (process_all orders_two OrderBook_init) + 1 = 3
   \<and> lookup (opp_side sell_four (process_all orders_two OrderBook_init)) 12
       = [\<lparr>type = BUY, price = 12, quantity = 10, order_id = 1\<rparr>]"
proof -
  let ?t = "\<lparr>trade_type = SELL, trade_price = 12, trade_quantity = 4,
              incoming_order_id = 3, book_order_id = 1\<rparr>"
  have h1: "\<forall>x\<in>set orders_two. 0 < price x \<and> 0 < quantity x"
    by (simp add: orders_two_def)
  have h2: "0 < price sell_four \<and> 0 < quantity sell_four"
    by (simp add: sell_four_def)
  have e: "emitted (process_all orders_two OrderBook_init)
             (snd (process_order sell_four (process_all orders_two OrderBook_init))) = [?t]"
    by code_simp
  then have h3: "?t \<in> set (emitted (process_all orders_two OrderBook_init)
                   (snd (process_order sell_four (process_all orders_two OrderBook_init))))"
    by simp
  have l: "lookup (opp_side sell_four (process_all orders_two OrderBook_init)) 12
             = [\<lparr>type = BUY, price = 12, quantity = 10, order_id = 1\<rparr>]"
    by code_simp
  have "type sell_four = SELL" by (simp add: sell_four_def)
  then show ?thesis
    using e l trade_record [OF h1 h2 h3] by simp
qed

section \<open>Order identities and time priority\<close>

lemma rests_sides:
  "rests b r = (\<exists>k. r \<in> set (lookup (own_side x b) k) \<or> r \<in> set (lookup (opp_side x b) k))"
  by (cases "type x") (auto simp: rests_def own_side_def opp_side_def)

lemma same_order_refl [simp]: "same_order r r"
  by (simp add: same_order_def)

lemma rests_after:
  assumes "rests (snd (process_order x b)) r'"
  shows "(\<exists>r. rests b r \<and> same_order r r') \<or> same_order (stamp x b) r'"
proof -
  let ?b' = "snd (process_order x b)"
  obtain k where k: "r' \<in> set (lookup (own_side x ?b') k) \<or> r' \<in> set (lookup (opp_side x ?b') k)"
    using assms rests_sides [of ?b' r' x] by blast
  show ?thesis
  proof (cases "marketable x b")
    case False
    note r = process_order_resting [OF False]
    from k have "r' \<in> set (lookup (own_side x b) k) \<or> r' = stamp x b
                 \<or> r' \<in> set (lookup (opp_side x b) k)"
      by (auto simp: r(2,3) lookup_dd_append split: if_splits)
    then show ?thesis
      using rests_sides [of b r' x] same_order_refl by blast
  next
    case True
    obtain x' lv' ts where
      m: "match_levels (stamp x b) (walk_prices x b) (opp_side x b) [] = (x', lv', ts)"
      by (cases "match_levels (stamp x b) (walk_prices x b) (opp_side x b) []") auto
    note r = process_order_marketable [OF True m]
    have sx: "same_order (stamp x b) x'"
      using match_levels_keeps [OF m] by (simp add: same_order_def)
    from k have "r' \<in> set (lookup (own_side x b) k) \<or> r' = x' \<or> r' \<in> set (lookup lv' k)"
      by (auto simp: r(2,3) lookup_dd_append split: if_splits)
    then consider "r' \<in> set (lookup (own_side x b) k)" | "r' = x'" | "r' \<in> set (lookup lv' k)"
      by blast
    then show ?thesis
    proof cases
      case 1
      then have "rests b r'" using rests_sides [of b r' x] by blast
      then show ?thesis using same_order_refl by blast
    next
      case 2
      then show ?thesis using sx by simp
    next
      case 3
      from match_levels_origin [OF m 3]
      obtain r0 where "r0 \<in> set (lookup (opp_side x b) k)" "same_order r0 r'" by blast
      moreover from this(1) have "rests b r0" using rests_sides [of b r0 x] by blast
      ultimately show ?thesis by blast
    qed
  qed
qed

lemma same_order_ids: "list_all2 same_order l l2 \<Longrightarrow> map order_id l2 = map order_id l"
  by (induction l l2 rule: list_all2_induct) (simp_all add: same_order_def)

lemma sorted_ids_survivors:
  assumes "sorted_wrt (<) (map order_id l)" and "list_all2 same_order l l2"
  shows "sorted_wrt (<) (map order_id (survivors l2))"
proof -
  have "sorted_wrt (<) (map order_id l2)"
    using assms same_order_ids [OF assms(2)] by simp
  then show ?thesis
    by (simp add: survivors_def sorted_wrt_map sorted_wrt_filter)
qed

lemma match_levels_sorted_ids:
  assumes "match_levels x ps lv q = (x', lv', q')"
    and "sorted_wrt (<) (map order_id (lookup lv k))"
  shows "sorted_wrt (<) (map order_id (lookup lv' k))"
  by (rule match_levels_level [OF assms(1), where P = "\<lambda>l. sorted_wrt (<) (map order_id l)"])
     (simp_all add: assms(2) sorted_ids_survivors)

lemma sorted_ids_append:
  assumes "sorted_wrt (<) (map order_id l)" and "\<forall>r\<in>set l. order_id r < order_id x"
  shows "sorted_wrt (<) (map order_id (l @ [x]))"
  using assms by (simp add: sorted_wrt_append)

lemma ids_ok_sorted:
  assumes "ids_ok b"
  shows "sorted_wrt (<) (map order_id (lookup (own_side x b) k))"
    and "sorted_wrt (<) (map order_id (lookup (opp_side x b) k))"
proof -
  have "sorted_wrt (<) (map order_id (lookup (bids b) k))
        \<and> sorted_wrt (<) (map order_id (lookup (offers b) k))"
    using assms unfolding ids_ok_def by (elim conjE allE [of _ k]) simp
  then show "sorted_wrt (<) (map order_id (lookup (own_side x b) k))"
    and "sorted_wrt (<) (map order_id (lookup (opp_side x b) k))"
    by (simp_all add: own_side_def opp_side_def)
qed

lemma ids_ok_le: "ids_ok b \<Longrightarrow> rests b r \<Longrightarrow> order_id r \<le> book_order_counter b"
  unfolding ids_ok_def by blast

lemma ids_ok_unique:
  "ids_ok b \<Longrightarrow> rests b r1 \<Longrightarrow> rests b r2 \<Longrightarrow> order_id r1 = order_id r2
     \<Longrightarrow> type r1 = type r2 \<and> price r1 = price r2"
  unfolding ids_ok_def by blast

lemma ids_okI:
  assumes "\<And>k. sorted_wrt (<) (map order_id (lookup (bids b) k))"
    and "\<And>k. sorted_wrt (<) (map order_id (lookup (offers b) k))"
    and "\<And>r. rests b r \<Longrightarrow> order_id r \<le> book_order_counter b"
    and "\<And>r1 r2. rests b r1 \<Longrightarrow> rests b r2 \<Longrightarrow> order_id r1 = order_id r2
           \<Longrightarrow> type r1 = type r2 \<and> price r1 = price r2"
  shows "ids_ok b"
  unfolding ids_ok_def using assms by blast

lemma process_order_counter:
  "book_order_counter (snd (process_order x b)) = book_order_counter b + 1"
proof (cases "marketable x b")
  case False
  then show ?thesis by (rule process_order_resting(5))
next
  case True
  obtain x' lv' ts where
    m: "match_levels (stamp x b) (walk_prices x b) (opp_side x b) [] = (x', lv', ts)"
    by (cases "match_levels (stamp x b) (walk_prices x b) (opp_side x b) []") auto
  show ?thesis by (rule process_order_marketable(5) [OF True m])
qed

lemma own_below_counter:
  assumes "ids_ok b" and "r \<in> set (lookup (own_side x b) k)"
  shows "order_id r < book_order_counter b + 1"
proof -
  have "rests b r" using assms(2) rests_sides [of b r x] by blast
  then show ?thesis using ids_ok_le [OF assms(1)] by fastforce
qed

lemma sorted_ids_dd_append:
  assumes "sorted_wrt (<) (map order_id (lookup lv k))"
    and "\<And>r. r \<in> set (lookup lv p) \<Longrightarrow> order_id r < order_id y"
  shows "sorted_wrt (<) (map order_id (lookup (dd_append lv p y) k))"
proof (cases "k = p")
  case True
  then show ?thesis using assms by (simp add: lookup_dd_append sorted_wrt_append)
next
  case False
  then show ?thesis using assms(1) by (simp add: lookup_dd_append)
qed

lemma process_order_sorted_own:
  assumes "ids_ok b"
  shows "sorted_wrt (<) (map order_id (lookup (own_side x (snd (process_order x b))) k))"
proof (cases "marketable x b")
  case False
  note r = process_order_resting [OF False]
  have "sorted_wrt (<) (map order_id (lookup (dd_append (own_side x b) (price x) (stamp x b)) k))"
    using ids_ok_sorted(1) [OF assms, of x k] own_below_counter [OF assms, of _ x "price x"]
    by (intro sorted_ids_dd_append) simp_all
  then show ?thesis by (simp add: r(3))
next
  case True
  obtain x' lv' ts where
    m: "match_levels (stamp x b) (walk_prices x b) (opp_side x b) [] = (x', lv', ts)"
    by (cases "match_levels (stamp x b) (walk_prices x b) (opp_side x b) []") auto
  note r = process_order_marketable [OF True m]
  have "order_id x' = book_order_counter b + 1"
    using match_levels_keeps [OF m] by simp
  then have "sorted_wrt (<) (map order_id (lookup (dd_append (own_side x b) (price x) x') k))"
    using ids_ok_sorted(1) [OF assms, of x k] own_below_counter [OF assms, of _ x "price x"]
    by (intro sorted_ids_dd_append) simp_all
  then show ?thesis
    using ids_ok_sorted(1) [OF assms, of x k] by (simp add: r(3))
qed

lemma process_order_sorted_opp:
  assumes "ids_ok b"
  shows "sorted_wrt (<) (map order_id (lookup (opp_side x (snd (process_order x b))) k))"
proof (cases "marketable x b")
  case False
  then show ?thesis
    using ids_ok_sorted(2) [OF assms, of x k] by (simp add: process_order_resting(2))
next
  case True
  obtain x' lv' ts where
    m: "match_levels (stamp x b) (walk_prices x b) (opp_side x b) [] = (x', lv', ts)"
    by (cases "match_levels (stamp x b) (walk_prices x b) (opp_side x b) []") auto
  show ?thesis
    using match_levels_sorted_ids [OF m ids_ok_sorted(2) [OF assms, of x k]]
    by (simp add: process_order_marketable(2) [OF True m])
qed

lemma process_order_ids_ok:
  assumes "ids_ok b"
  shows "ids_ok (snd (process_order x b))"
proof (rule ids_okI)
  let ?b' = "snd (process_order x b)"
  note cnt = process_order_counter [of x b]
  fix k
  show "sorted_wrt (<) (map order_id (lookup (bids ?b') k))"
    using process_order_sorted_own [OF assms, of x k] process_order_sorted_opp [OF assms, of x k]
    by (cases "type x") (simp_all add: own_side_def opp_side_def)
  show "sorted_wrt (<) (map order_id (lookup (offers ?b') k))"
    using process_order_sorted_own [OF assms, of x k] process_order_sorted_opp [OF assms, of x k]
    by (cases "type x") (simp_all add: own_side_def opp_side_def)
next
  let ?b' = "snd (process_order x b)"
  note cnt = process_order_counter [of x b]
  fix r' assume "rests ?b' r'"
  from rests_after [OF this] show "order_id r' \<le> book_order_counter ?b'"
  proof
    assume "\<exists>r. rests b r \<and> same_order r r'"
    then obtain r where "rests b r" "same_order r r'" by blast
    then show ?thesis using ids_ok_le [OF assms, of r] cnt by (simp add: same_order_def)
  next
    assume "same_order (stamp x b) r'"
    then show ?thesis using cnt by (simp add: same_order_def)
  qed
next
  let ?b' = "snd (process_order x b)"
  fix r1 r2 assume a: "rests ?b' r1" "rests ?b' r2" "order_id r1 = order_id r2"
  from rests_after [OF a(1)] rests_after [OF a(2)]
  consider (oo) s1 s2 where "rests b s1" "same_order s1 r1" "rests b s2" "same_order s2 r2"
    | (on) s1 where "rests b s1" "same_order s1 r1" "same_order (stamp x b) r2"
    | (no) s2 where "same_order (stamp x b) r1" "rests b s2" "same_order s2 r2"
    | (nn) "same_order (stamp x b) r1" "same_order (stamp x b) r2"
    by blast
  then show "type r1 = type r2 \<and> price r1 = price r2"
  proof cases
    case oo
    then have "order_id s1 = order_id s2" using a(3) by (simp add: same_order_def)
    from ids_ok_unique [OF assms oo(1,3) this] oo(2,4) show ?thesis
      by (simp add: same_order_def)
  next
    case on
    then have "order_id s1 = book_order_counter b + 1"
      using a(3) by (simp add: same_order_def)
    then show ?thesis using ids_ok_le [OF assms on(1)] by simp
  next
    case no
    then have "order_id s2 = book_order_counter b + 1"
      using a(3) by (simp add: same_order_def)
    then show ?thesis using ids_ok_le [OF assms no(2)] by simp
  next
    case nn
    then show ?thesis by (simp add: same_order_def)
  qed
qed

lemma ids_ok_init: "ids_ok OrderBook_init"
  by (simp add: ids_ok_def rests_def lookup_def OrderBook_init_def)

lemma process_all_ids_ok: "ids_ok b \<Longrightarrow> ids_ok (process_all xs b)"
  by (induction xs arbitrary: b) (simp_all add: process_order_ids_ok)

lemma fills_extend: "fills w ts False \<Longrightarrow> fills (w @ v) ts False"
  by (induction w ts False rule: fills.induct) simp_all

lemma fills_append:
  "fills w ts True \<Longrightarrow> length ts = length w \<Longrightarrow> fills v ts' full \<Longrightarrow> fills (w @ v) (ts @ ts') full"
proof (induction w ts True arbitrary: rule: fills.induct)
  case (1 w)
  then show ?case by simp
next
  case (2 t ts)
  then show ?case by simp
next
  case (3 r w t ts)
  then show ?case by (cases ts') auto
qed

lemma fills_nth:
  "fills w ts full \<Longrightarrow> n < length ts \<Longrightarrow>
     n < length w \<and> book_order_id (ts ! n) = order_id (w ! n)
     \<and> (Suc n < length ts \<longrightarrow> trade_quantity (ts ! n) = quantity (w ! n))"
proof (induction w ts full arbitrary: n rule: fills.induct)
  case (1 w full)
  then show ?case by simp
next
  case (2 t ts full)
  then show ?case by simp
next
  case (3 r w t ts full)
  show ?case
  proof (cases n)
    case 0
    then show ?thesis using "3.prems" by auto
  next
    case (Suc m)
    then have "m < length ts" using "3.prems"(2) by simp
    moreover have "fills w ts full" using "3.prems"(1) by simp
    ultimately show ?thesis using "3.IH" [of m] Suc by simp
  qed
qed

lemma match_orders_no_trade: "quantity x = 0 \<Longrightarrow> match_orders x l [] = (x', l', ts) \<Longrightarrow> ts = [] \<and> x' = x"
  by (simp add: match_orders_zero)

lemma match_orders_fills:
  assumes "match_orders x l [] = (x', l', ts)"
  shows "fills l ts (quantity x' \<noteq> 0) \<and> (quantity x' \<noteq> 0 \<longrightarrow> length ts = length l)"
  using assms
proof (induction l arbitrary: x x' l' ts)
  case Nil
  then show ?case by simp
next
  case (Cons r rest)
  show ?case
  proof (cases "quantity x = 0")
    case True
    with Cons.prems show ?thesis by simp
  next
    case False
    obtain x1 r1 t1 where st: "match_step x r = (x1, r1, t1)"
      by (cases "match_step x r") auto
    obtain x2 rest2 ts2 where rec: "match_orders x1 rest [] = (x2, rest2, ts2)"
      by (cases "match_orders x1 rest []") auto
    have "match_orders x1 rest [t1] = (x2, rest2, [t1] @ ts2)"
      using match_orders_queue [of x1 rest "[t1]"] rec by simp
    then have eq: "ts = t1 # ts2" "x' = x2"
      using Cons.prems(1) False st by simp_all
    have t1: "book_order_id t1 = order_id r" "trade_quantity t1 = min (quantity x) (quantity r)"
      using st by (auto simp: match_step_def execute_match_def Let_def)
    have x1: "quantity x1 = quantity x - min (quantity x) (quantity r)"
      using match_step_quantity(1) [of x r] st by simp
    have full: "ts2 \<noteq> [] \<or> quantity x2 \<noteq> 0 \<Longrightarrow> trade_quantity t1 = quantity r"
    proof -
      assume "ts2 \<noteq> [] \<or> quantity x2 \<noteq> 0"
      then have "quantity x1 \<noteq> 0"
        using match_orders_no_trade [OF _ rec] by auto
      then show ?thesis using x1 t1(2) by (simp add: min_def split: if_splits)
    qed
    show ?thesis
      using Cons.IH [OF rec] eq t1(1) full by auto
  qed
qed

lemma walk_Cons: "walk (p # ps) lv = lookup lv p @ walk ps lv"
  by (simp add: walk_def)

lemma walk_settle: "p \<notin> set ps \<Longrightarrow> walk ps (settle p l lv) = walk ps lv"
  by (induction ps) (auto simp: walk_def lookup_settle)

lemma match_levels_no_trade:
  "quantity x = 0 \<Longrightarrow> match_levels x ps lv [] = (x', lv', ts) \<Longrightarrow> ts = [] \<and> x' = x"
  by (simp add: match_levels_zero)

lemma match_levels_fills:
  assumes "match_levels x ps lv [] = (x', lv', ts)" and "distinct ps"
  shows "fills (walk ps lv) ts (quantity x' \<noteq> 0)"
  using assms
proof (induction ps arbitrary: x lv ts x' lv')
  case Nil
  then show ?case by simp
next
  case (Cons p ps)
  show ?case
  proof (cases "quantity x = 0 \<or> price_doesnt_match x p")
    case True
    with Cons.prems show ?thesis by auto
  next
    case False
    obtain x1 l1 ts1 where m: "match_orders x (lookup lv p) [] = (x1, l1, ts1)"
      by (cases "match_orders x (lookup lv p) []") auto
    obtain x2 lv2 ts2 where r: "match_levels x1 ps (settle p l1 lv) [] = (x2, lv2, ts2)"
      by (cases "match_levels x1 ps (settle p l1 lv) []") auto
    have "match_levels x1 ps (settle p l1 lv) ts1 = (x2, lv2, ts1 @ ts2)"
      using match_levels_queue [of x1 ps "settle p l1 lv" ts1] r by simp
    then have eq: "ts = ts1 @ ts2" "x' = x2"
      using Cons.prems(1) match_levels_step [OF False, of ps lv "[]"] m by simp_all
    have d: "p \<notin> set ps" "distinct ps" using Cons.prems(2) by simp_all
    have f1: "fills (lookup lv p) ts1 (quantity x1 \<noteq> 0)"
      and len: "quantity x1 \<noteq> 0 \<Longrightarrow> length ts1 = length (lookup lv p)"
      using match_orders_fills [OF m] by simp_all
    have f2: "fills (walk ps lv) ts2 (quantity x2 \<noteq> 0)"
      using Cons.IH [OF r d(2)] walk_settle [OF d(1)] by simp
    show ?thesis
    proof (cases "quantity x1 = 0")
      case True
      then have "ts2 = []" "x2 = x1"
        using match_levels_no_trade [OF _ r] by simp_all
      then show ?thesis
        using f1 True eq fills_extend [of "lookup lv p" ts1 "walk ps lv"]
        by (simp add: walk_Cons)
    next
      case nz: False
      then have "fills (lookup lv p) ts1 True" using f1 by simp
      from fills_append [OF this len [OF nz] f2] show ?thesis
        using eq by (simp add: walk_Cons)
    qed
  qed
qed

lemma walk_append: "walk (ps @ qs) lv = walk ps lv @ walk qs lv"
  by (simp add: walk_def)

lemma set_walk: "set (walk ps lv) = (\<Union>k\<in>set ps. set (lookup lv k))"
  by (simp add: walk_def)

lemma walk_segment:
  assumes "k \<in> set ps"
  shows "\<exists>a. a + length (lookup lv k) \<le> length (walk ps lv)
             \<and> (\<forall>i<length (lookup lv k). walk ps lv ! (a + i) = lookup lv k ! i)"
proof -
  obtain P1 P2 where ps: "ps = P1 @ k # P2"
    using assms by (meson split_list)
  have w: "walk ps lv = walk P1 lv @ lookup lv k @ walk P2 lv"
    by (simp add: ps walk_append walk_Cons)
  have "\<forall>i<length (lookup lv k). walk ps lv ! (length (walk P1 lv) + i) = lookup lv k ! i"
    by (simp add: w nth_append)
  moreover have "length (walk P1 lv) + length (lookup lv k) \<le> length (walk ps lv)"
    by (simp add: w)
  ultimately show ?thesis by blast
qed

lemma level_positions:
  assumes "sorted_wrt (<) (map order_id l)" and "r1 \<in> set l" and "r2 \<in> set l"
    and "order_id r1 < order_id r2"
  shows "\<exists>i j. i < j \<and> j < length l \<and> l ! i = r1 \<and> l ! j = r2"
proof -
  obtain i j where i: "i < length l" "l ! i = r1" and j: "j < length l" "l ! j = r2"
    using assms(2,3) by (metis in_set_conv_nth)
  have s: "sorted_wrt (\<lambda>a c. order_id a < order_id c) l"
    using assms(1) by (simp add: sorted_wrt_map)
  have "i < j"
  proof (rule ccontr)
    assume "\<not> i < j"
    then consider "j = i" | "j < i" by linarith
    then show False
    proof cases
      case 1
      then show ?thesis using i j assms(4) by simp
    next
      case 2
      from sorted_wrt_nth_less [OF s 2 i(1)] show ?thesis
        using i j assms(4) by simp
    qed
  qed
  then show ?thesis using i j by blast
qed

lemma walk_ids_distinct:
  assumes "distinct ps"
    and "\<And>k. sorted_wrt (<) (map order_id (lookup lv k))"
    and "\<And>k1 k2 r1 r2. r1 \<in> set (lookup lv k1) \<Longrightarrow> r2 \<in> set (lookup lv k2)
           \<Longrightarrow> order_id r1 = order_id r2 \<Longrightarrow> k1 = k2"
  shows "distinct (map order_id (walk ps lv))"
  using assms(1)
proof (induction ps)
  case Nil
  then show ?case by (simp add: walk_def)
next
  case (Cons p ps)
  have d1: "distinct (map order_id (lookup lv p))"
    using assms(2) [of p] strict_sorted_iff by blast
  have d2: "distinct (map order_id (walk ps lv))"
    using Cons by simp
  have "order_id ` set (lookup lv p) \<inter> order_id ` set (walk ps lv) = {}"
  proof (rule ccontr)
    assume "order_id ` set (lookup lv p) \<inter> order_id ` set (walk ps lv) \<noteq> {}"
    then obtain r1 r2 where r: "r1 \<in> set (lookup lv p)" "r2 \<in> set (walk ps lv)"
      "order_id r1 = order_id r2" by (auto simp: image_iff)
    from r(2) obtain k where k: "k \<in> set ps" "r2 \<in> set (lookup lv k)"
      by (auto simp: set_walk)
    from assms(3) [OF r(1) k(2) r(3)] have "p = k" .
    then show False using k(1) Cons.prems by simp
  qed
  then show ?case using d1 d2 by (simp add: walk_Cons)
qed

lemma other_neq [simp]: "other t \<noteq> t"
  by (cases t) simp_all

lemma priority_core:
  assumes ok: "book_ok b" and ids: "ids_ok b"
    and lv: "lv = bids b \<or> lv = offers b"
    and r1: "r1 \<in> set (lookup lv k)" and r2: "r2 \<in> set (lookup lv k)"
    and lt: "order_id r1 < order_id r2"
    and ts: "ts = emitted b (snd (process_order y b))"
    and n: "n < length ts" and hit: "book_order_id (ts ! n) = order_id r2"
  shows "\<exists>m<n. book_order_id (ts ! m) = order_id r1 \<and> trade_quantity (ts ! m) = quantity r1"
proof -
  define opp where "opp = opp_side y b"
  define W where "W = walk (walk_prices y b) opp"
  have own_ok: "side_ok (type y) (own_side y b)" and opp_ok: "side_ok (other (type y)) opp"
    using ok book_ok_sides [of b y] by (simp_all add: opp_def)
  have mk: "marketable y b"
    using n ts process_order_emitted(2) [of y b] by force
  obtain y' lv' ts' where
    m: "match_levels (stamp y b) (walk_prices y b) (opp_side y b) [] = (y', lv', ts')"
    by (cases "match_levels (stamp y b) (walk_prices y b) (opp_side y b) []") auto
  have ts': "ts' = ts"
    using process_order_emitted(1) [OF mk m] ts by simp
  have dps: "distinct (walk_prices y b)"
    using opp_ok by (intro walk_prices_distinct) (simp add: side_ok_def opp_def)
  have F: "fills W ts (quantity y' \<noteq> 0)"
    using match_levels_fills [OF m dps] ts' by (simp add: W_def opp_def)
  have opp_rests: "\<And>r q. r \<in> set (lookup opp q) \<Longrightarrow> rests b r"
    using rests_sides [of b _ y] by (auto simp: opp_def)
  have srt: "\<And>q. sorted_wrt (<) (map order_id (lookup opp q))"
    using ids_ok_sorted(2) [OF ids, of y] by (simp add: opp_def)
  have cross: "\<And>k1 k2 s1 s2. s1 \<in> set (lookup opp k1) \<Longrightarrow> s2 \<in> set (lookup opp k2)
                 \<Longrightarrow> order_id s1 = order_id s2 \<Longrightarrow> k1 = k2"
  proof -
    fix k1 k2 s1 s2
    assume a: "s1 \<in> set (lookup opp k1)" "s2 \<in> set (lookup opp k2)" "order_id s1 = order_id s2"
    have "price s1 = price s2"
      using ids_ok_unique [OF ids opp_rests [OF a(1)] opp_rests [OF a(2)] a(3)] by simp
    then show "k1 = k2"
      using side_ok_lookup [OF opp_ok a(1)] side_ok_lookup [OF opp_ok a(2)] by simp
  qed
  have dW: "distinct (map order_id W)"
    unfolding W_def by (rule walk_ids_distinct [OF dps srt cross])
  have nW: "n < length W" and idn: "order_id (W ! n) = order_id r2"
    using fills_nth [OF F n] hit by simp_all
  then have "W ! n \<in> set W" by simp
  then obtain k' where k': "W ! n \<in> set (lookup opp k')"
    by (auto simp: W_def set_walk)
  have rests2: "rests b r2"
    using r2 lv by (auto simp: rests_def)
  have same: "type (W ! n) = type r2" "price (W ! n) = price r2"
    using ids_ok_unique [OF ids opp_rests [OF k'] rests2 idn] by simp_all
  have tW: "type (W ! n) = other (type y)" "price (W ! n) = k'"
    using side_ok_lookup [OF opp_ok k'] by simp_all
  have "lv = own_side y b \<or> lv = opp"
    using lv by (cases "type y") (auto simp: own_side_def opp_side_def opp_def)
  moreover have "lv \<noteq> own_side y b"
  proof
    assume "lv = own_side y b"
    then have "type r2 = type y"
      using side_ok_lookup [OF own_ok, of r2 k] r2 by simp
    then show False using same(1) tW(1) by simp
  qed
  ultimately have lv_opp: "lv = opp" by simp
  have kk: "k' = k"
    using side_ok_lookup [OF opp_ok, of r2 k] r2 lv_opp same(2) tW(2) by simp
  have "lookup opp k \<noteq> []" using r2 lv_opp by auto
  then have "k \<in> fst ` set opp" by (rule lookup_nonempty_key)
  then have kin: "k \<in> set (walk_prices y b)"
    by (simp add: walk_prices_set opp_def)
  from walk_segment [OF kin, of opp]
  obtain a where a: "a + length (lookup opp k) \<le> length W"
    "\<And>i. i < length (lookup opp k) \<Longrightarrow> W ! (a + i) = lookup opp k ! i"
    unfolding W_def by blast
  from level_positions [OF srt [of k] _ _ lt] r1 r2 lv_opp
  obtain i j where ij: "i < j" "j < length (lookup opp k)"
    "lookup opp k ! i = r1" "lookup opp k ! j = r2" by blast
  have Wj: "W ! (a + j) = r2" and Wi: "W ! (a + i) = r1"
    using a(2) [of j] a(2) [of i] ij by simp_all
  have ajW: "a + j < length W" using a(1) ij(2) by simp
  from nth_eq_iff_index_eq [OF dW, of n "a + j"] nW ajW idn Wj
  have "n = a + j" by simp
  then have mn: "a + i < n" "a + i < length ts" "Suc (a + i) < length ts"
    using ij(1) n by simp_all
  from fills_nth [OF F mn(2)] mn(3) Wi
  have "book_order_id (ts ! (a + i)) = order_id r1 \<and> trade_quantity (ts ! (a + i)) = quantity r1"
    by simp
  then show ?thesis using mn(1) by blast
qed

text \<open>
  C2: in a book reached from the empty book by orders with positive price and positive
  quantity, take two orders resting in the same level of the same side, the first with
  the smaller identity. Then the first stands before the second in the level's list
  (levels grow at the tail and compaction keeps the order of the survivors), and in the
  trades any incoming order produces, a trade against the second is preceded by a trade
  against the first that takes the whole remaining quantity of the first.
\<close>

theorem price_time_priority:
  assumes "\<forall>x\<in>set xs. 0 < price x \<and> 0 < quantity x"
    and "b = process_all xs OrderBook_init"
    and "lv = bids b \<or> lv = offers b"
    and "r1 \<in> set (lookup lv k)" and "r2 \<in> set (lookup lv k)"
    and "order_id r1 < order_id r2"
    and "ts = emitted b (snd (process_order y b))"
  shows "(\<exists>i j. i < j \<and> j < length (lookup lv k) \<and> lookup lv k ! i = r1 \<and> lookup lv k ! j = r2)
         \<and> (\<forall>n<length ts. book_order_id (ts ! n) = order_id r2 \<longrightarrow>
               (\<exists>m<n. book_order_id (ts ! m) = order_id r1
                      \<and> trade_quantity (ts ! m) = quantity r1))"
proof -
  have ok: "book_ok b"
    unfolding assms(2) using assms(1) by (intro process_all_book_ok book_ok_init) simp
  have ids: "ids_ok b"
    unfolding assms(2) by (intro process_all_ids_ok ids_ok_init)
  have "sorted_wrt (<) (map order_id (lookup lv k))"
    using assms(3) ids unfolding ids_ok_def by blast
  from level_positions [OF this assms(4,5,6)]
  have "\<exists>i j. i < j \<and> j < length (lookup lv k) \<and> lookup lv k ! i = r1 \<and> lookup lv k ! j = r2" .
  moreover have "\<forall>n<length ts. book_order_id (ts ! n) = order_id r2 \<longrightarrow>
               (\<exists>m<n. book_order_id (ts ! m) = order_id r1
                      \<and> trade_quantity (ts ! m) = quantity r1)"
    using priority_core [OF ok ids assms(3,4,5,6,7)] by blast
  ultimately show ?thesis by blast
qed

theorem price_time_priority_witness:
  "lookup (bids (process_all two_bids OrderBook_init)) 12
     = [\<lparr>type = BUY, price = 12, quantity = 10, order_id = 1\<rparr>,
        \<lparr>type = BUY, price = 12, quantity = 5, order_id = 2\<rparr>]
   \<and> emitted (process_all two_bids OrderBook_init)
        (snd (process_order sell_twelve (process_all two_bids OrderBook_init)))
       = [\<lparr>trade_type = SELL, trade_price = 12, trade_quantity = 10,
            incoming_order_id = 3, book_order_id = 1\<rparr>,
          \<lparr>trade_type = SELL, trade_price = 12, trade_quantity = 2,
            incoming_order_id = 3, book_order_id = 2\<rparr>]
   \<and> book_order_id (emitted (process_all two_bids OrderBook_init)
          (snd (process_order sell_twelve (process_all two_bids OrderBook_init))) ! 0) = 1
   \<and> trade_quantity (emitted (process_all two_bids OrderBook_init)
          (snd (process_order sell_twelve (process_all two_bids OrderBook_init))) ! 0) = 10"
proof -
  let ?b = "process_all two_bids OrderBook_init"
  let ?ts = "emitted ?b (snd (process_order sell_twelve ?b))"
  let ?r1 = "\<lparr>type = BUY, price = 12, quantity = 10, order_id = 1\<rparr>"
  let ?r2 = "\<lparr>type = BUY, price = 12, quantity = 5, order_id = 2\<rparr>"
  have h1: "\<forall>x\<in>set two_bids. 0 < price x \<and> 0 < quantity x"
    by (simp add: two_bids_def)
  have l: "lookup (bids ?b) 12 = [?r1, ?r2]"
    by code_simp
  have e: "?ts = [\<lparr>trade_type = SELL, trade_price = 12, trade_quantity = 10,
                    incoming_order_id = 3, book_order_id = 1\<rparr>,
                  \<lparr>trade_type = SELL, trade_price = 12, trade_quantity = 2,
                    incoming_order_id = 3, book_order_id = 2\<rparr>]"
    by code_simp
  have h4: "?r1 \<in> set (lookup (bids ?b) 12)" and h5: "?r2 \<in> set (lookup (bids ?b) 12)"
    by (simp_all add: l)
  have h6: "order_id ?r1 < order_id ?r2" by simp
  have n: "1 < length ?ts" and hit: "book_order_id (?ts ! 1) = order_id ?r2"
    by (simp_all add: e)
  from price_time_priority [OF h1 refl disjI1 [OF refl] h4 h5 h6 refl, of sell_twelve,
      THEN conjunct2, rule_format, OF n hit]
  obtain m where "m < 1" "book_order_id (?ts ! m) = order_id ?r1"
    "trade_quantity (?ts ! m) = quantity ?r1" by blast
  then have "book_order_id (?ts ! 0) = 1 \<and> trade_quantity (?ts ! 0) = 10" by simp
  then show ?thesis using l e by simp
qed

section \<open>Creation and removal of levels\<close>

lemma traded_at_append [simp]: "traded_at k (ts @ ts') = traded_at k ts + traded_at k ts'"
  by (simp add: traded_at_def)

lemma traded_at_Nil [simp]: "traded_at k [] = 0"
  by (simp add: traded_at_def)

lemma traded_at_same: "\<forall>t\<in>set ts. trade_price t = k \<Longrightarrow> traded_at k ts = total ts"
  by (induction ts) (simp_all add: traded_at_def total_def)

lemma traded_at_other: "\<forall>t\<in>set ts. trade_price t \<noteq> k \<Longrightarrow> traded_at k ts = 0"
  by (induction ts) (simp_all add: traded_at_def)

text \<open>Within a level, what the resting orders lose is what the trades executed.\<close>

lemma match_orders_level_total:
  assumes "match_orders x l [] = (x', l', ts)"
  shows "sum_list (map quantity l) = sum_list (map quantity l') + total ts"
  using assms
proof (induction l arbitrary: x x' l' ts)
  case Nil
  then show ?case by (simp add: total_def)
next
  case (Cons r rest)
  show ?case
  proof (cases "quantity x = 0")
    case True
    with Cons.prems show ?thesis by (auto simp: total_def)
  next
    case False
    obtain x1 r1 t1 where st: "match_step x r = (x1, r1, t1)"
      by (cases "match_step x r") auto
    obtain x2 rest2 ts2 where rec: "match_orders x1 rest [] = (x2, rest2, ts2)"
      by (cases "match_orders x1 rest []") auto
    have "match_orders x1 rest [t1] = (x2, rest2, [t1] @ ts2)"
      using match_orders_queue [of x1 rest "[t1]"] rec by simp
    then have eq: "ts = t1 # ts2" "l' = r1 # rest2"
      using Cons.prems(1) False st by simp_all
    have "quantity r1 = quantity r - trade_quantity t1"
      using match_step_quantity(2,3) [of x r] st by simp
    then show ?thesis
      using Cons.IH [OF rec] eq by (simp add: total_def)
  qed
qed

lemma match_orders_resting_nonneg:
  assumes "match_orders x l q = (x', l', q')" and "\<forall>r\<in>set l. 0 \<le> quantity r"
  shows "\<forall>r\<in>set l'. 0 \<le> quantity r"
  using assms
proof (induction l arbitrary: x q x' l' q')
  case Nil
  then show ?case by simp
next
  case (Cons r rest)
  show ?case
  proof (cases "quantity x = 0")
    case True
    with Cons.prems show ?thesis by auto
  next
    case False
    obtain x1 r1 t1 where st: "match_step x r = (x1, r1, t1)"
      by (cases "match_step x r") auto
    obtain x2 rest2 q2 where rec: "match_orders x1 rest (q @ [t1]) = (x2, rest2, q2)"
      by (cases "match_orders x1 rest (q @ [t1])") auto
    have eq: "l' = r1 # rest2" using Cons.prems(1) False st rec by simp
    have "0 \<le> quantity r1"
      using match_step_quantity(2) [of x r] st by simp
    moreover have "\<forall>r\<in>set rest2. 0 \<le> quantity r"
      using Cons.IH [OF rec] Cons.prems(2) by simp
    ultimately show ?thesis using eq by simp
  qed
qed

lemma survivors_empty_iff:
  assumes "\<forall>r\<in>set l. 0 \<le> quantity r"
  shows "(survivors l = []) = (sum_list (map quantity l) = 0)"
  using assms
proof (induction l)
  case Nil
  then show ?case by (simp add: survivors_def)
next
  case (Cons r l)
  have "0 \<le> sum_list (map quantity l)"
    using Cons.prems by (intro sum_list_nonneg) auto
  then show ?case
    using Cons by (auto simp: survivors_def)
qed

lemma sum_quantity_pos:
  "l \<noteq> [] \<Longrightarrow> \<forall>r\<in>set l. 0 < quantity r \<Longrightarrow> 0 < sum_list (map quantity l)"
proof (induction l)
  case Nil
  then show ?case by simp
next
  case (Cons r l)
  have "0 \<le> sum_list (map quantity l)"
    using Cons.prems(2) by (intro sum_list_nonneg) auto
  then show ?case using Cons.prems(2) by simp
qed

lemma level_quantity_pos:
  assumes "side_ok s lv" and "k \<in> fst ` set lv"
  shows "0 < level_quantity lv k"
proof -
  have ne: "lookup lv k \<noteq> []" using side_ok_key [OF assms] .
  have pos: "\<forall>r\<in>set (lookup lv k). 0 < quantity r"
    using side_ok_lookup [OF assms(1)] by blast
  show ?thesis using sum_quantity_pos [OF ne pos] by (simp add: level_quantity_def)
qed

lemma keys_settle_iff:
  "k \<in> fst ` set (settle p l lv) = (if k = p then survivors l \<noteq> [] else k \<in> fst ` set lv)"
  by (auto simp: keys_settle)

lemma level_quantity_settle: "k \<noteq> p \<Longrightarrow> level_quantity (settle p l lv) k = level_quantity lv k"
  by (simp add: level_quantity_def lookup_settle)

lemma match_levels_removed:
  assumes "match_levels x ps lv [] = (x', lv', ts)" and "distinct ps"
    and "side_ok s lv" and "0 \<le> quantity x"
  shows "(k \<notin> set ps \<longrightarrow>
            traded_at k ts = 0 \<and> (k \<in> fst ` set lv' \<longleftrightarrow> k \<in> fst ` set lv))
         \<and> (k \<in> set ps \<longrightarrow> k \<in> fst ` set lv \<longrightarrow>
              (k \<in> fst ` set lv' \<longleftrightarrow> traded_at k ts \<noteq> level_quantity lv k))"
  using assms
proof (induction ps arbitrary: x lv ts x' lv')
  case Nil
  then show ?case by simp
next
  case (Cons p ps)
  show ?case
  proof (cases "quantity x = 0 \<or> price_doesnt_match x p")
    case True
    then have stop: "lv' = lv" "ts = []" using Cons.prems(1) by auto
    show ?thesis
    proof (cases "k \<in> fst ` set lv")
      case True
      then have "0 < level_quantity lv k" by (rule level_quantity_pos [OF Cons.prems(3)])
      then show ?thesis using True stop by simp
    next
      case False
      then show ?thesis using stop by simp
    qed
  next
    case False
    obtain x1 l1 ts1 where m: "match_orders x (lookup lv p) [] = (x1, l1, ts1)"
      by (cases "match_orders x (lookup lv p) []") auto
    obtain x2 lv2 ts2 where r: "match_levels x1 ps (settle p l1 lv) [] = (x2, lv2, ts2)"
      by (cases "match_levels x1 ps (settle p l1 lv) []") auto
    have "match_levels x1 ps (settle p l1 lv) ts1 = (x2, lv2, ts1 @ ts2)"
      using match_levels_queue [of x1 ps "settle p l1 lv" ts1] r by simp
    then have eq: "ts = ts1 @ ts2" "lv' = lv2"
      using Cons.prems(1) match_levels_step [OF False, of ps lv "[]"] m by simp_all
    have d: "p \<notin> set ps" "distinct ps" using Cons.prems(2) by simp_all
    have pos: "\<forall>r\<in>set (lookup lv p). 0 < quantity r"
      using side_ok_lookup [OF Cons.prems(3)] by blast
    have rel: "list_all2 same_order (lookup lv p) l1"
      using match_orders_rel [OF m] .
    have ok2: "side_ok s (settle p l1 lv)"
      using side_ok_settle [OF Cons.prems(3) rel] .
    have x1: "0 \<le> quantity x1"
      using match_orders_nonneg [OF m Cons.prems(4)] .
    note ih = Cons.IH [OF r d(2) ok2 x1]
    have prices1: "\<forall>t\<in>set ts1. trade_price t = p"
    proof
      fix t assume "t \<in> set ts1"
      from match_orders_trades [OF m Cons.prems(4) pos this]
      obtain r0 where "r0 \<in> set (lookup lv p)" "trade_price t = price r0" by blast
      then show "trade_price t = p" using side_ok_lookup [OF Cons.prems(3)] by simp
    qed
    have t1p: "traded_at p ts1 = total ts1"
      using traded_at_same [OF prices1] .
    have t1k: "k \<noteq> p \<Longrightarrow> traded_at k ts1 = 0"
      using prices1 by (intro traded_at_other) auto
    have nn: "\<forall>r\<in>set l1. 0 \<le> quantity r"
      using match_orders_resting_nonneg [OF m] pos by (simp add: less_imp_le)
    have cons: "level_quantity lv p = sum_list (map quantity l1) + total ts1"
      using match_orders_level_total [OF m] by (simp add: level_quantity_def)
    have gone: "(survivors l1 \<noteq> []) = (total ts1 \<noteq> level_quantity lv p)"
      using survivors_empty_iff [OF nn] cons by auto
    show ?thesis
    proof (cases "k = p")
      case True
      then have "traded_at k ts2 = 0"
        and "k \<in> fst ` set lv2 \<longleftrightarrow> k \<in> fst ` set (settle p l1 lv)"
        using ih d(1) by simp_all
      then show ?thesis
        using True eq t1p gone by (simp add: keys_settle_iff)
    next
      case False
      have q: "level_quantity (settle p l1 lv) k = level_quantity lv k"
        using False by (rule level_quantity_settle)
      have key: "k \<in> fst ` set (settle p l1 lv) \<longleftrightarrow> k \<in> fst ` set lv"
        using False by (simp add: keys_settle_iff)
      show ?thesis
        using ih False eq t1k [OF False] q key by simp
    qed
  qed
qed

lemma side_ok_hygiene:
  assumes "side_ok s lv" and "k \<in> set (map fst lv)"
  shows "lookup lv k \<noteq> [] \<and> (\<forall>r\<in>set (lookup lv k). 0 < quantity r)"
  using assms unfolding side_ok_def by blast

lemma process_order_own_keys:
  assumes "0 < quantity y"
  shows "fst ` set (own_side y (snd (process_order y b))) =
           (if 0 < quantity (fst (process_order y b))
            then insert (price y) (fst ` set (own_side y b)) else fst ` set (own_side y b))"
proof (cases "marketable y b")
  case False
  note r = process_order_resting [OF False]
  show ?thesis using assms by (simp add: r(1,3) keys_dd_append)
next
  case True
  obtain y' lv' ts where
    m: "match_levels (stamp y b) (walk_prices y b) (opp_side y b) [] = (y', lv', ts)"
    by (cases "match_levels (stamp y b) (walk_prices y b) (opp_side y b) []") auto
  note r = process_order_marketable [OF True m]
  show ?thesis by (simp add: r(1,3) keys_dd_append)
qed

lemma process_order_opp_keys:
  assumes "book_ok b" and "0 < quantity y" and "k \<in> fst ` set (opp_side y b)"
  shows "k \<in> fst ` set (opp_side y (snd (process_order y b)))
           \<longleftrightarrow> traded_at k (emitted b (snd (process_order y b))) \<noteq> level_quantity (opp_side y b) k"
proof (cases "marketable y b")
  case False
  have opp: "side_ok (other (type y)) (opp_side y b)"
    using assms(1) book_ok_sides [of b y] by simp
  have "0 < level_quantity (opp_side y b) k"
    using level_quantity_pos [OF opp assms(3)] .
  then show ?thesis
    using assms(3) by (simp add: process_order_resting(2) [OF False] process_order_emitted(2) [OF False])
next
  case True
  obtain y' lv' ts where
    m: "match_levels (stamp y b) (walk_prices y b) (opp_side y b) [] = (y', lv', ts)"
    by (cases "match_levels (stamp y b) (walk_prices y b) (opp_side y b) []") auto
  have opp: "side_ok (other (type y)) (opp_side y b)"
    using assms(1) book_ok_sides [of b y] by simp
  have dps: "distinct (walk_prices y b)"
    using opp by (intro walk_prices_distinct) (simp add: side_ok_def)
  have q: "0 \<le> quantity (stamp y b)" using assms(2) by simp
  have kin: "k \<in> set (walk_prices y b)"
    using assms(3) by (simp add: walk_prices_set)
  from match_levels_removed [OF m dps opp q, of k] kin assms(3)
  have "k \<in> fst ` set lv' \<longleftrightarrow> traded_at k ts \<noteq> level_quantity (opp_side y b) k"
    by simp
  then show ?thesis
    by (simp add: process_order_marketable(2) [OF True m] process_order_emitted(1) [OF True m])
qed

lemma process_order_opp_keys_subset:
  "fst ` set (opp_side y (snd (process_order y b))) \<subseteq> fst ` set (opp_side y b)"
proof (cases "marketable y b")
  case False
  then show ?thesis by (simp add: process_order_resting(2))
next
  case True
  obtain y' lv' ts where
    m: "match_levels (stamp y b) (walk_prices y b) (opp_side y b) [] = (y', lv', ts)"
    by (cases "match_levels (stamp y b) (walk_prices y b) (opp_side y b) []") auto
  show ?thesis
    using match_levels_keys [OF m]
    by (simp add: process_order_marketable(2) [OF True m] walk_prices_set)
qed

text \<open>
  C6: in the book left by a call of \<open>process_order\<close>, for orders with positive price and
  positive quantity processed from the empty book, every price key of either side index
  maps to a non-empty list of orders that all have quantity above 0. A key appears on
  the order's own side exactly when the order comes to rest there, at its price. No key
  appears on the opposite side, and a key of the opposite side is gone after the call
  exactly when the trades of this call at that price add up to all the quantity that
  rested there: a level goes in the call that fills its last order.
\<close>

theorem level_hygiene:
  assumes "\<forall>x\<in>set xs. 0 < price x \<and> 0 < quantity x" and "0 < price y \<and> 0 < quantity y"
    and "b = process_all xs OrderBook_init"
    and "y' = fst (process_order y b)" and "b' = snd (process_order y b)"
  shows "(\<forall>k\<in>set (map fst (bids b')).
            lookup (bids b') k \<noteq> [] \<and> (\<forall>r\<in>set (lookup (bids b') k). 0 < quantity r))
         \<and> (\<forall>k\<in>set (map fst (offers b')).
            lookup (offers b') k \<noteq> [] \<and> (\<forall>r\<in>set (lookup (offers b') k). 0 < quantity r))
         \<and> set (map fst (own_side y b')) =
             (if 0 < quantity y' then insert (price y) (set (map fst (own_side y b)))
              else set (map fst (own_side y b)))
         \<and> set (map fst (opp_side y b')) \<subseteq> set (map fst (opp_side y b))
         \<and> (\<forall>k\<in>set (map fst (opp_side y b)).
              k \<notin> set (map fst (opp_side y b'))
                \<longleftrightarrow> traded_at k (emitted b b') = level_quantity (opp_side y b) k)"
proof -
  have ok: "book_ok b"
    unfolding assms(3) using assms(1) by (intro process_all_book_ok book_ok_init) simp
  have ok': "book_ok b'"
    unfolding assms(5) using ok assms(2) by (intro process_order_book_ok) simp_all
  have h1: "\<forall>k\<in>set (map fst (bids b')).
            lookup (bids b') k \<noteq> [] \<and> (\<forall>r\<in>set (lookup (bids b') k). 0 < quantity r)"
    using ok' side_ok_hygiene [of BUY "bids b'"] unfolding book_ok_def by blast
  have h2: "\<forall>k\<in>set (map fst (offers b')).
            lookup (offers b') k \<noteq> [] \<and> (\<forall>r\<in>set (lookup (offers b') k). 0 < quantity r)"
    using ok' side_ok_hygiene [of SELL "offers b'"] unfolding book_ok_def by blast
  have h3: "set (map fst (own_side y b')) =
             (if 0 < quantity y' then insert (price y) (set (map fst (own_side y b)))
              else set (map fst (own_side y b)))"
    using process_order_own_keys [of y b] assms(2) by (simp add: assms(4,5))
  have h4: "set (map fst (opp_side y b')) \<subseteq> set (map fst (opp_side y b))"
    using process_order_opp_keys_subset [of y b] by (simp add: assms(5))
  have h5: "\<forall>k\<in>set (map fst (opp_side y b)).
              k \<notin> set (map fst (opp_side y b'))
                \<longleftrightarrow> traded_at k (emitted b b') = level_quantity (opp_side y b) k"
  proof
    fix k assume "k \<in> set (map fst (opp_side y b))"
    then have "k \<in> fst ` set (opp_side y b)" by simp
    from process_order_opp_keys [OF ok _ this] assms(2)
    show "k \<notin> set (map fst (opp_side y b'))
            \<longleftrightarrow> traded_at k (emitted b b') = level_quantity (opp_side y b) k"
      by (simp add: assms(5))
  qed
  show ?thesis
    by (intro conjI h1 h2 h3 h4 h5)
qed

theorem level_hygiene_witness:
  "map fst (bids (process_all orders_two OrderBook_init)) = [12]
   \<and> map fst (offers (process_all orders_two OrderBook_init)) = [15]
   \<and> map fst (bids (snd (process_order sell_twelve (process_all orders_two OrderBook_init)))) = []
   \<and> map fst (offers (snd (process_order sell_twelve (process_all orders_two OrderBook_init))))
       = [15, 12]
   \<and> quantity (fst (process_order sell_twelve (process_all orders_two OrderBook_init))) = 2
   \<and> traded_at 12 (emitted (process_all orders_two OrderBook_init)
        (snd (process_order sell_twelve (process_all orders_two OrderBook_init)))) = 10
   \<and> level_quantity (bids (process_all orders_two OrderBook_init)) 12 = 10"
proof -
  let ?b = "process_all orders_two OrderBook_init"
  have h1: "\<forall>x\<in>set orders_two. 0 < price x \<and> 0 < quantity x"
    by (simp add: orders_two_def)
  have h2: "0 < price sell_twelve \<and> 0 < quantity sell_twelve"
    by (simp add: sell_twelve_def)
  have k: "map fst (bids ?b) = [12]" "map fst (offers ?b) = [15]"
    "map fst (offers (snd (process_order sell_twelve ?b))) = [15, 12]"
    "quantity (fst (process_order sell_twelve ?b)) = 2"
    "level_quantity (bids ?b) 12 = 10"
    by code_simp+
  have t: "type sell_twelve = SELL" by (simp add: sell_twelve_def)
  note th = level_hygiene [OF h1 h2 refl refl refl]
  have sub: "set (map fst (bids (snd (process_order sell_twelve ?b)))) \<subseteq> {12}"
    using th [THEN conjunct2, THEN conjunct2, THEN conjunct2, THEN conjunct1] t k(1)
    by (simp add: opp_side_def)
  have "12 \<in> set (map fst (opp_side sell_twelve ?b))"
    using t k(1) by (simp add: opp_side_def)
  from th [THEN conjunct2, THEN conjunct2, THEN conjunct2, THEN conjunct2, rule_format, OF this]
  have iff: "12 \<notin> set (map fst (bids (snd (process_order sell_twelve ?b))))
          \<longleftrightarrow> traded_at 12 (emitted ?b (snd (process_order sell_twelve ?b))) = 10"
    using t k(5) by (simp add: opp_side_def)
  have tr: "traded_at 12 (emitted ?b (snd (process_order sell_twelve ?b))) = 10"
    by code_simp
  then have "12 \<notin> set (map fst (bids (snd (process_order sell_twelve ?b))))"
    using iff by simp
  then have "map fst (bids (snd (process_order sell_twelve ?b))) = []"
    using sub by (cases "map fst (bids (snd (process_order sell_twelve ?b)))") auto
  then show ?thesis using k tr by simp
qed

end
